theory Spec2Isabelle
  imports Main "HOL-Library.Multiset"
begin

section \<open>Newsfeed aggregator (aggregierter\_feed.py)\<close>

text \<open>
  A shallow embedding of the aggregator script. Strings are byte strings (ASCII); the
  libraries the script calls (requests, BeautifulSoup, feedparser, urllib, datetime,
  sqlite3) are not part of the script: what they return is taken from an environment
  record, what the script does with their results is modelled function by function.
  Exceptions are values of type \<open>exn\<close>; a function that can raise returns \<open>exn + 'a\<close>.
\<close>

subsection \<open>Configuration\<close>

definition USER_AGENT :: string where
  "USER_AGENT = ''VereineRSSAggregator/1.0 (+https://example.com)''"

definition REQUEST_TIMEOUT :: nat where
  "REQUEST_TIMEOUT = 12"

definition MAX_ITEMS_PER_SOURCE :: nat where
  "MAX_ITEMS_PER_SOURCE = 8"

subsection \<open>Python string operations used by the script\<close>

text \<open>\<^verbatim>\<open>s.startswith(p)\<close>\<close>

fun startswith :: "string \<Rightarrow> string \<Rightarrow> bool" where
  "startswith s [] = True"
| "startswith [] (p # ps) = False"
| "startswith (c # cs) (p # ps) = (c = p \<and> startswith cs ps)"

text \<open>\<^verbatim>\<open>sub in s\<close>, also \<^verbatim>\<open>re.search\<close> of a literal pattern.\<close>

fun str_in :: "string \<Rightarrow> string \<Rightarrow> bool" where
  "str_in sub [] = (sub = [])"
| "str_in sub (c # cs) = (startswith (c # cs) sub \<or> str_in sub cs)"

text \<open>\<^verbatim>\<open>s.rstrip("/")\<close>\<close>

definition rstrip_slash :: "string \<Rightarrow> string" where
  "rstrip_slash s = rev (dropWhile (\<lambda>c. c = CHR ''/'') (rev s))"

text \<open>\<^verbatim>\<open>s.split('/')\<close>: never empty, \<^verbatim>\<open>"".split('/') == [""]\<close>.\<close>

fun split_slash :: "string \<Rightarrow> string list" where
  "split_slash [] = [[]]"
| "split_slash (c # cs) =
     (if c = CHR ''/'' then [] # split_slash cs
      else (case split_slash cs of [] \<Rightarrow> [[c]] | s # ss \<Rightarrow> (c # s) # ss))"

text \<open>\<^verbatim>\<open>s.replace('Z', '+00:00')\<close>\<close>

definition replace_Z :: "string \<Rightarrow> string" where
  "replace_Z s = concat (map (\<lambda>c. if c = CHR ''Z'' then ''+00:00'' else [c]) s)"

text \<open>ASCII case folding, as \<^verbatim>\<open>re.I\<close> does on ASCII text.\<close>

definition lower_char :: "char \<Rightarrow> char" where
  "lower_char c =
     (if 65 \<le> (of_char c :: nat) \<and> (of_char c :: nat) \<le> 90
      then char_of ((of_char c :: nat) + 32) else c)"

definition lower :: "string \<Rightarrow> string" where
  "lower s = map lower_char s"

definition is_digit :: "char \<Rightarrow> bool" where
  "is_digit c = (48 \<le> (of_char c :: nat) \<and> (of_char c :: nat) \<le> 57)"

text \<open>Truthiness of an optional string: \<^verbatim>\<open>None\<close> and \<^verbatim>\<open>""\<close> are falsy.\<close>

definition truthy :: "string option \<Rightarrow> string option" where
  "truthy x = (case x of None \<Rightarrow> None | Some s \<Rightarrow> if s = [] then None else Some s)"

subsection \<open>Exceptions\<close>

datatype net_failure = ConnectionError | Timeout | InvalidURL

datatype exn =
    RequestException net_failure
  | HTTPError nat
  | FeedparserError
  | ValueError
  | OverflowError
  | TypeError
  | IntegrityError

subsection \<open>The clock and the outbound requests\<close>

text \<open>
  The state of the outside world that the script changes or reads: the requests it has
  issued so far, and how many times it has read the clock. A request records what the
  script passes to the library: the URL, the User-Agent header when it passes one, and
  the timeout when it passes one.
\<close>

record request =
  req_url :: string
  req_agent :: "string option"
  req_timeout :: "nat option"

record world =
  sent :: "request list"
  ticks :: nat

record response =
  status_code :: nat
  content_type :: "string option"
  resp_text :: string

text \<open>\<^verbatim>\<open>time.struct_time\<close>: year, month, day, hour, minute, second, weekday, yearday, dst.\<close>

datatype struct_time = StructTime int int int int int int int int int

text \<open>
  A \<^verbatim>\<open>datetime\<close> is naive (wall-clock microseconds) or aware (microseconds of the
  UTC instant).
\<close>

datatype datetime = Naive int | Aware int

text \<open>The two ways in which the conversion of a parsed time to a date string can fail.\<close>

datatype time_failure = YearOutOfRange | TimeOverflow

fun time_exn :: "time_failure \<Rightarrow> exn" where
  "time_exn YearOutOfRange = ValueError"
| "time_exn TimeOverflow = OverflowError"

record link_tag =
  lt_type :: "string option"
  lt_href :: "string option"

record anchor =
  a_href :: string
  a_text :: string

record feed_entry =
  e_title :: "string option"
  e_link :: "string option"
  e_id :: "string option"
  e_summary :: "string option"
  e_published_parsed :: "struct_time option"
  e_published :: "string option"
  e_updated :: "string option"

text \<open>
  The environment: what the libraries answer.
  \<^item> \<open>http\<close>: \<^verbatim>\<open>requests.get\<close>, a response or a failure; it may depend on everything
    that happened before;
  \<^item> \<open>feedparser_parse\<close>: the entries of \<^verbatim>\<open>feedparser.parse(url)\<close>, \<open>None\<close> when it raises;
  \<^item> \<open>soup_links\<close>, \<open>soup_anchors\<close>: the \<^verbatim>\<open><link>\<close> elements, and the \<^verbatim>\<open><a>\<close> elements
    that have an href (with their stripped text), of a parsed HTML text, in document
    order;
  \<^item> \<open>urljoin\<close>: \<open>None\<close> when \<^verbatim>\<open>urljoin\<close> raises ValueError (a malformed URL);
  \<^item> \<open>urlparse_path\<close>: the path component of a URL;
  \<^item> \<open>clock\<close>: the n-th reading of \<^verbatim>\<open>datetime.utcnow()\<close>;
  \<^item> \<open>format_datetime\<close>: a naive reading as an RFC 2822 string;
  \<^item> \<open>format_struct_time\<close>:
    \<^verbatim>\<open>format_datetime(datetime.fromtimestamp(time.mktime(pub)))\<close>, or how the conversion
    fails: \<^verbatim>\<open>fromtimestamp\<close> raises ValueError for a year out of range (year 10000),
    \<^verbatim>\<open>mktime\<close> raises OverflowError for a time that does not fit;
  \<^item> \<open>fromisoformat\<close>, \<open>parsedate_to_datetime\<close>: \<open>None\<close> when they raise.
\<close>

record env =
  http :: "world \<Rightarrow> request \<Rightarrow> net_failure + response"
  feedparser_parse :: "world \<Rightarrow> string \<Rightarrow> feed_entry list option"
  soup_links :: "string \<Rightarrow> link_tag list"
  soup_anchors :: "string \<Rightarrow> anchor list"
  urljoin :: "string \<Rightarrow> string \<Rightarrow> string option"
  urlparse_path :: "string \<Rightarrow> string"
  clock :: "nat \<Rightarrow> int"
  format_datetime :: "int \<Rightarrow> string"
  format_struct_time :: "struct_time \<Rightarrow> time_failure + string"
  fromisoformat :: "string \<Rightarrow> datetime option"
  parsedate_to_datetime :: "string \<Rightarrow> datetime option"

text \<open>\<^verbatim>\<open>datetime.utcnow()\<close>: the next reading of the clock.\<close>

definition utcnow :: "env \<Rightarrow> world \<Rightarrow> int \<times> world" where
  "utcnow e w = (clock e (ticks w), w\<lparr>ticks := Suc (ticks w)\<rparr>)"

subsection \<open>SeenStore\<close>

text \<open>
  The table \<^verbatim>\<open>seen (id INTEGER PRIMARY KEY, guid TEXT UNIQUE, first_seen TIMESTAMP)\<close>
  as the list of its rows.
\<close>

record seen_row =
  row_id :: nat
  guid :: string
  first_seen :: int

type_synonym seen_table = "seen_row list"

text \<open>\<^verbatim>\<open>SELECT 1 FROM seen WHERE guid = ?\<close>, then \<^verbatim>\<open>fetchone() is not None\<close>.\<close>

definition is_seen :: "seen_table \<Rightarrow> string \<Rightarrow> bool" where
  "is_seen tbl g = (filter (\<lambda>r. guid r = g) tbl \<noteq> [])"

text \<open>
  \<^verbatim>\<open>INSERT INTO seen (guid, first_seen) VALUES (?, ?)\<close>: the UNIQUE constraint on guid
  raises IntegrityError; otherwise the row gets the next row id.
\<close>

definition next_row_id :: "seen_table \<Rightarrow> nat" where
  "next_row_id tbl = Suc (fold max (map row_id tbl) 0)"

definition sql_insert :: "seen_table \<Rightarrow> string \<Rightarrow> int \<Rightarrow> exn + seen_table" where
  "sql_insert tbl g t =
     (if filter (\<lambda>r. guid r = g) tbl \<noteq> [] then Inl IntegrityError
      else Inr (tbl @ [\<lparr>row_id = next_row_id tbl, guid = g, first_seen = t\<rparr>]))"

text \<open>\<^verbatim>\<open>mark_seen\<close>: only IntegrityError is caught.\<close>

definition mark_seen :: "env \<Rightarrow> world \<Rightarrow> seen_table \<Rightarrow> string \<Rightarrow> (exn + seen_table) \<times> world" where
  "mark_seen e w tbl g =
     (case utcnow e w of (now, w') \<Rightarrow>
        ((case sql_insert tbl g now of
            Inl x \<Rightarrow> (if x = IntegrityError then Inr tbl else Inl x)
          | Inr tbl' \<Rightarrow> Inr tbl'), w'))"

subsection \<open>HTTP GET\<close>

text \<open>\<^verbatim>\<open>requests.get(url, headers=..., timeout=...)\<close>: the request is recorded.\<close>

definition requests_get :: "env \<Rightarrow> world \<Rightarrow> request \<Rightarrow> (exn + response) \<times> world" where
  "requests_get e w rq =
     ((case http e w rq of Inl f \<Rightarrow> Inl (RequestException f) | Inr r \<Rightarrow> Inr r),
      w\<lparr>sent := sent w @ [rq]\<rparr>)"

text \<open>\<^verbatim>\<open>http_get\<close>: \<^verbatim>\<open>raise_for_status\<close> raises on a 4xx or 5xx status.\<close>

definition http_get :: "env \<Rightarrow> world \<Rightarrow> string \<Rightarrow> (exn + response) \<times> world" where
  "http_get e w url =
     (case requests_get e w
             \<lparr>req_url = url, req_agent = Some USER_AGENT, req_timeout = Some REQUEST_TIMEOUT\<rparr> of
        (Inl x, w') \<Rightarrow> (Inl x, w')
      | (Inr r, w') \<Rightarrow>
          (if 400 \<le> status_code r \<and> status_code r < 600
           then (Inl (HTTPError (status_code r)), w') else (Inr r, w')))"

subsection \<open>Feed discovery\<close>

text \<open>
  \<^verbatim>\<open>soup.find_all("link", type=re.compile(...))\<close>: the elements whose type attribute
  contains one of the three media types (the pattern is searched, with no flag).
\<close>

definition type_matches :: "string \<Rightarrow> bool" where
  "type_matches t =
     (str_in ''application/rss+xml'' t \<or> str_in ''text/rss+xml'' t
      \<or> str_in ''application/atom+xml'' t)"

definition find_link_tags :: "link_tag list \<Rightarrow> link_tag list" where
  "find_link_tags lts =
     filter (\<lambda>lt. case lt_type lt of None \<Rightarrow> False | Some t \<Rightarrow> type_matches t) lts"

text \<open>
  The loop over \<^verbatim>\<open>link_tags\<close>: the first element with a truthy href decides; \<open>None\<close> when
  the loop ends without returning.
\<close>

fun first_href :: "env \<Rightarrow> string \<Rightarrow> link_tag list \<Rightarrow> (exn + string) option" where
  "first_href e url [] = None"
| "first_href e url (lt # lts) =
     (case truthy (lt_href lt) of
        None \<Rightarrow> first_href e url lts
      | Some href \<Rightarrow>
          Some (case urljoin e url href of None \<Rightarrow> Inl ValueError | Some u \<Rightarrow> Inr u))"

definition feed_paths :: "string list" where
  "feed_paths = [''/feed'', ''/rss'', ''/rss.xml'', ''/news/rss'', ''/news/feed'', ''/aktuelles/feed'']"

definition candidates :: "string \<Rightarrow> string list" where
  "candidates url = map (\<lambda>p. rstrip_slash url @ p) feed_paths"

definition probe_request :: "string \<Rightarrow> request" where
  "probe_request c = \<lparr>req_url = c, req_agent = Some USER_AGENT, req_timeout = Some 6\<rparr>"

text \<open>
  \<^verbatim>\<open>rr.status_code == 200 and ("xml" in rr.headers.get("Content-Type", "") or
  re.search(r"<rss|<feed", rr.text))\<close>
\<close>

definition accepts_feed :: "response \<Rightarrow> bool" where
  "accepts_feed rr =
     (status_code rr = 200 \<and>
      (str_in ''xml'' (case content_type rr of None \<Rightarrow> [] | Some ct \<Rightarrow> ct)
       \<or> str_in ''<rss'' (resp_text rr) \<or> str_in ''<feed'' (resp_text rr)))"

fun probe_candidates :: "env \<Rightarrow> world \<Rightarrow> string list \<Rightarrow> string option \<times> world" where
  "probe_candidates e w [] = (None, w)"
| "probe_candidates e w (c # cs) =
     (case requests_get e w (probe_request c) of
        (Inl x, w') \<Rightarrow> probe_candidates e w' cs
      | (Inr rr, w') \<Rightarrow> (if accepts_feed rr then (Some c, w') else probe_candidates e w' cs))"

definition discover_rss_from_url :: "env \<Rightarrow> world \<Rightarrow> string \<Rightarrow> (exn + string option) \<times> world" where
  "discover_rss_from_url e w url =
     (case http_get e w url of
        (Inl x, w') \<Rightarrow> (Inr None, w')
      | (Inr r, w') \<Rightarrow>
          (case first_href e url (find_link_tags (soup_links e (resp_text r))) of
             Some (Inl x) \<Rightarrow> (Inl x, w')
           | Some (Inr u) \<Rightarrow> (Inr (Some u), w')
           | None \<Rightarrow>
               (case probe_candidates e w' (candidates url) of (c, w'') \<Rightarrow> (Inr c, w''))))"

subsection \<open>Reading a feed\<close>

record item =
  title :: string
  link :: string
  description :: string
  pubDate :: string

text \<open>The publication date of an entry; the clock is read only in the last case.\<close>

definition entry_pubdate :: "env \<Rightarrow> world \<Rightarrow> feed_entry \<Rightarrow> (exn + string) \<times> world" where
  "entry_pubdate e w x =
     (case e_published_parsed x of
        Some pub \<Rightarrow>
          ((case format_struct_time e pub of Inl f \<Rightarrow> Inl (time_exn f) | Inr s \<Rightarrow> Inr s), w)
      | None \<Rightarrow>
          (case truthy (e_published x) of
             Some s \<Rightarrow> (Inr s, w)
           | None \<Rightarrow>
               (case truthy (e_updated x) of
                  Some s \<Rightarrow> (Inr s, w)
                | None \<Rightarrow> (case utcnow e w of (now, w') \<Rightarrow> (Inr (format_datetime e now), w')))))"

fun entry_items :: "env \<Rightarrow> world \<Rightarrow> feed_entry list \<Rightarrow> (exn + item list) \<times> world" where
  "entry_items e w [] = (Inr [], w)"
| "entry_items e w (x # xs) =
     (case (case truthy (e_link x) of Some l \<Rightarrow> Some l | None \<Rightarrow> truthy (e_id x)) of
        None \<Rightarrow> entry_items e w xs
      | Some l \<Rightarrow>
          (case entry_pubdate e w x of
             (Inl ex, w1) \<Rightarrow> (Inl ex, w1)
           | (Inr pd, w1) \<Rightarrow>
               (case entry_items e w1 xs of
                  (Inl ex, w2) \<Rightarrow> (Inl ex, w2)
                | (Inr its, w2) \<Rightarrow>
                    (Inr (\<lparr>title = (case truthy (e_title x) of None \<Rightarrow> ''(kein Titel)'' | Some t \<Rightarrow> t),
                           link = l,
                           description = (case e_summary x of None \<Rightarrow> [] | Some d \<Rightarrow> d),
                           pubDate = pd\<rparr> # its), w2))))"

text \<open>
  \<^verbatim>\<open>feedparser.parse(rss_url)\<close> fetches the URL itself: the script passes neither a
  User-Agent nor a timeout.
\<close>

definition feed_request :: "string \<Rightarrow> request" where
  "feed_request rss_url = \<lparr>req_url = rss_url, req_agent = None, req_timeout = None\<rparr>"

definition fetch_feed_items :: "env \<Rightarrow> world \<Rightarrow> string \<Rightarrow> (exn + item list) \<times> world" where
  "fetch_feed_items e w rss_url =
     (case feedparser_parse e w rss_url of
        None \<Rightarrow> (Inr [], w\<lparr>sent := sent w @ [feed_request rss_url]\<rparr>)
      | Some entries \<Rightarrow>
          entry_items e (w\<lparr>sent := sent w @ [feed_request rss_url]\<rparr>)
            (take MAX_ITEMS_PER_SOURCE entries))"

subsection \<open>Heuristic scraping\<close>

definition keyword_patterns :: "string list" where
  "keyword_patterns =
     [''/news/'', ''/article/'', ''/artikel/'', ''/aktuell'', ''/presse'', ''/blog'',
      ''/berichte'', ''/nachrichten'', ''/news-'']"

text \<open>\<^verbatim>\<open>\d{4}/\d{2}\<close> at the start of the string, and anywhere in it.\<close>

fun date_at :: "string \<Rightarrow> bool" where
  "date_at (a # b # c # d # s # f # g # rest) =
     (is_digit a \<and> is_digit b \<and> is_digit c \<and> is_digit d \<and> s = CHR ''/''
      \<and> is_digit f \<and> is_digit g)"
| "date_at rest = False"

fun search_date :: "string \<Rightarrow> bool" where
  "search_date [] = False"
| "search_date (c # cs) = (date_at (c # cs) \<or> search_date cs)"

text \<open>The \<^verbatim>\<open>re.search(..., full, re.I)\<close> of the scraper, on the whole resolved URL.\<close>

definition article_pattern :: "string \<Rightarrow> bool" where
  "article_pattern full =
     (list_ex (\<lambda>p. str_in p (lower full)) keyword_patterns \<or> search_date full)"

definition path_segments :: "env \<Rightarrow> string \<Rightarrow> string list" where
  "path_segments e full = filter (\<lambda>p. p \<noteq> []) (split_slash (urlparse_path e full))"

definition article_like :: "env \<Rightarrow> string \<Rightarrow> bool" where
  "article_like e full = (article_pattern full \<or> 3 \<le> length (path_segments e full))"

fun article_candidates :: "env \<Rightarrow> string \<Rightarrow> anchor list \<Rightarrow> exn + (string \<times> string) list" where
  "article_candidates e page_url [] = Inr []"
| "article_candidates e page_url (a # rest) =
     (if a_text a = [] \<or> length (a_text a) < 5 then article_candidates e page_url rest
      else if startswith (a_href a) ''#'' \<or> startswith (a_href a) ''mailto:''
      then article_candidates e page_url rest
      else (case urljoin e page_url (a_href a) of
              None \<Rightarrow> Inl ValueError
            | Some full \<Rightarrow>
                (case article_candidates e page_url rest of
                   Inl x \<Rightarrow> Inl x
                 | Inr cs \<Rightarrow> if article_like e full then Inr ((full, a_text a) # cs) else Inr cs)))"

fun unique_links ::
  "string list \<Rightarrow> (string \<times> string) list \<Rightarrow> (string \<times> string) list \<Rightarrow> (string \<times> string) list" where
  "unique_links seen unique [] = unique"
| "unique_links seen unique (lt # cs) =
     (if fst lt \<in> set seen then unique_links seen unique cs
      else if MAX_ITEMS_PER_SOURCE \<le> length (unique @ [lt]) then unique @ [lt]
      else unique_links (fst lt # seen) (unique @ [lt]) cs)"

fun scraped_items :: "env \<Rightarrow> world \<Rightarrow> string \<Rightarrow> (string \<times> string) list \<Rightarrow> item list \<times> world" where
  "scraped_items e w page_url [] = ([], w)"
| "scraped_items e w page_url (lt # us) =
     (case utcnow e w of (now, w1) \<Rightarrow>
        (case scraped_items e w1 page_url us of (its, w2) \<Rightarrow>
           (\<lparr>title = snd lt, link = fst lt, description = ''Artikel von '' @ page_url,
             pubDate = format_datetime e now\<rparr> # its, w2)))"

definition scrape_for_articles :: "env \<Rightarrow> world \<Rightarrow> string \<Rightarrow> (exn + item list) \<times> world" where
  "scrape_for_articles e w page_url =
     (case http_get e w page_url of
        (Inl x, w') \<Rightarrow> (Inr [], w')
      | (Inr r, w') \<Rightarrow>
          (case article_candidates e page_url (soup_anchors e (resp_text r)) of
             Inl x \<Rightarrow> (Inl x, w')
           | Inr cands \<Rightarrow>
               (case scraped_items e w' page_url (unique_links [] [] cands) of
                  (its, w'') \<Rightarrow> (Inr its, w''))))"

subsection \<open>Aggregation\<close>

record club =
  club_name :: "string option"
  club_url :: "string option"

definition guess_paths :: "string list" where
  "guess_paths = [''/news'', ''/aktuelles'', ''/presse'', ''/news/feed'', ''/de/aktuelles'']"

text \<open>
  The loop over \<^verbatim>\<open>guess_paths\<close>: the whole body is inside \<^verbatim>\<open>try\<close>, so a failure of the
  request and an exception out of the scraper both go on with the next path. \<open>None\<close> is
  \<^verbatim>\<open>found == False\<close>.
\<close>

fun try_guess_paths ::
  "env \<Rightarrow> world \<Rightarrow> string \<Rightarrow> string list \<Rightarrow> item list option \<times> world" where
  "try_guess_paths e w url [] = (None, w)"
| "try_guess_paths e w url (gp # gps) =
     (case requests_get e w (probe_request (rstrip_slash url @ gp)) of
        (Inl x, w') \<Rightarrow> try_guess_paths e w' url gps
      | (Inr r, w') \<Rightarrow>
          (if status_code r = 200 \<and> 200 < length (resp_text r)
           then (case scrape_for_articles e w' (rstrip_slash url @ gp) of
                   (Inl x, w'') \<Rightarrow> try_guess_paths e w'' url gps
                 | (Inr its, w'') \<Rightarrow> (Some its, w''))
           else try_guess_paths e w' url gps))"

text \<open>The items of one source, before attribution (the \<^verbatim>\<open>if url:\<close> block).\<close>

definition resolve_source :: "env \<Rightarrow> world \<Rightarrow> string option \<Rightarrow> (exn + item list) \<times> world" where
  "resolve_source e w url_opt =
     (case truthy url_opt of
        None \<Rightarrow> (Inr [], w)
      | Some url \<Rightarrow>
          (case discover_rss_from_url e w url of
             (Inl x, w') \<Rightarrow> (Inl x, w')
           | (Inr rss, w') \<Rightarrow>
               (case truthy rss of
                  Some r \<Rightarrow> fetch_feed_items e w' r
                | None \<Rightarrow>
                    (case try_guess_paths e w' url guess_paths of
                       (Some its, w'') \<Rightarrow> (Inr its, w'')
                     | (None, w'') \<Rightarrow> scrape_for_articles e w'' url))))"

text \<open>\<^verbatim>\<open>f"{name}"\<close> of an optional string.\<close>

definition format_name :: "string option \<Rightarrow> string" where
  "format_name n = (case n of None \<Rightarrow> ''None'' | Some s \<Rightarrow> s)"

text \<open>
  Attribution of one item. \<^verbatim>\<open>name + ':'\<close> is evaluated only when the title has no
  \<^verbatim>\<open>' - '\<close>, and raises TypeError when the name is \<^verbatim>\<open>None\<close>.
\<close>

definition attribute_item :: "string option \<Rightarrow> item \<Rightarrow> exn + item" where
  "attribute_item n it =
     (if \<not> str_in '' - '' (title it) then
        (case n of
           None \<Rightarrow> Inl TypeError
         | Some nm \<Rightarrow>
             Inr (it\<lparr>title := (if \<not> startswith (title it) (nm @ '':'')
                               then nm @ '': '' @ title it else title it),
                     description := ''Quelle: '' @ nm @ ''. '' @ description it\<rparr>))
      else Inr (it\<lparr>description := ''Quelle: '' @ format_name n @ ''. '' @ description it\<rparr>))"

fun attribute_items :: "string option \<Rightarrow> item list \<Rightarrow> exn + item list" where
  "attribute_items n [] = Inr []"
| "attribute_items n (it # its) =
     (case attribute_item n it of
        Inl x \<Rightarrow> Inl x
      | Inr it' \<Rightarrow>
          (case attribute_items n its of Inl x \<Rightarrow> Inl x | Inr its' \<Rightarrow> Inr (it' # its')))"

text \<open>The deduplication loop of one source.\<close>

fun dedup_items ::
  "env \<Rightarrow> world \<Rightarrow> seen_table \<Rightarrow> item list \<Rightarrow> (exn + item list) \<times> world \<times> seen_table" where
  "dedup_items e w tbl [] = (Inr [], w, tbl)"
| "dedup_items e w tbl (it # its) =
     (if is_seen tbl (link it) then dedup_items e w tbl its
      else (case mark_seen e w tbl (link it) of
              (Inl x, w') \<Rightarrow> (Inl x, w', tbl)
            | (Inr tbl', w') \<Rightarrow>
                (case dedup_items e w' tbl' its of
                   (Inl x, st) \<Rightarrow> (Inl x, st)
                 | (Inr kept, st) \<Rightarrow> (Inr (it # kept), st))))"

text \<open>The body of the loop over the clubs.\<close>

definition process_club ::
  "env \<Rightarrow> world \<Rightarrow> seen_table \<Rightarrow> club \<Rightarrow> (exn + item list) \<times> world \<times> seen_table" where
  "process_club e w tbl c =
     (case resolve_source e w (club_url c) of
        (Inl x, w') \<Rightarrow> (Inl x, w', tbl)
      | (Inr source_items, w') \<Rightarrow>
          (case attribute_items (club_name c) source_items of
             Inl x \<Rightarrow> (Inl x, w', tbl)
           | Inr its \<Rightarrow> dedup_items e w' tbl its))"

fun collect_items ::
  "env \<Rightarrow> world \<Rightarrow> seen_table \<Rightarrow> club list \<Rightarrow> (exn + item list) \<times> world \<times> seen_table" where
  "collect_items e w tbl [] = (Inr [], w, tbl)"
| "collect_items e w tbl (c # cs) =
     (case process_club e w tbl c of
        (Inl x, st) \<Rightarrow> (Inl x, st)
      | (Inr new_items, w', tbl') \<Rightarrow>
          (case collect_items e w' tbl' cs of
             (Inl x, st) \<Rightarrow> (Inl x, st)
           | (Inr later, st) \<Rightarrow> (Inr (new_items @ later), st)))"

text \<open>\<^verbatim>\<open>parse_date\<close>: the clock is read only when both parsers raise.\<close>

definition parse_date :: "env \<Rightarrow> world \<Rightarrow> string \<Rightarrow> datetime \<times> world" where
  "parse_date e w s =
     (case fromisoformat e (replace_Z s) of
        Some d \<Rightarrow> (d, w)
      | None \<Rightarrow>
          (case parsedate_to_datetime e s of
             Some d \<Rightarrow> (d, w)
           | None \<Rightarrow> (case utcnow e w of (now, w') \<Rightarrow> (Naive now, w'))))"

text \<open>\<^verbatim>\<open>list.sort\<close> computes the key of every element once, in list order, before sorting.\<close>

fun sort_keys :: "env \<Rightarrow> world \<Rightarrow> item list \<Rightarrow> (datetime \<times> item) list \<times> world" where
  "sort_keys e w [] = ([], w)"
| "sort_keys e w (it # its) =
     (case parse_date e w (pubDate it) of (k, w1) \<Rightarrow>
        (case sort_keys e w1 its of (kis, w2) \<Rightarrow> ((k, it) # kis, w2)))"

fun is_naive :: "datetime \<Rightarrow> bool" where
  "is_naive (Naive t) = True"
| "is_naive (Aware t) = False"

fun dt_value :: "datetime \<Rightarrow> int" where
  "dt_value (Naive t) = t"
| "dt_value (Aware t) = t"

text \<open>
  Comparing a naive with an aware \<^verbatim>\<open>datetime\<close> raises TypeError, and sorting a list
  that holds both has to compare two such keys. Otherwise the sort is the stable sort
  with every comparison reversed.
\<close>

definition mixed_keys :: "datetime list \<Rightarrow> bool" where
  "mixed_keys ks = (list_ex is_naive ks \<and> list_ex (\<lambda>k. \<not> is_naive k) ks)"

definition sort_reverse :: "(datetime \<times> item) list \<Rightarrow> exn + (datetime \<times> item) list" where
  "sort_reverse kis =
     (if mixed_keys (map fst kis) then Inl TypeError
      else Inr (sort_key (\<lambda>ki. - dt_value (fst ki)) kis))"

definition aggregate ::
  "env \<Rightarrow> world \<Rightarrow> seen_table \<Rightarrow> club list \<Rightarrow> (exn + item list) \<times> world \<times> seen_table" where
  "aggregate e w tbl clubs =
     (case collect_items e w tbl clubs of
        (Inl x, st) \<Rightarrow> (Inl x, st)
      | (Inr all_items, w', tbl') \<Rightarrow>
          (case sort_keys e w' all_items of (kis, w'') \<Rightarrow>
             (case sort_reverse kis of
                Inl x \<Rightarrow> (Inl x, w'', tbl')
              | Inr sorted_items \<Rightarrow> (Inr (map snd sorted_items), w'', tbl'))))"

subsection \<open>The claims of the specification that the script does not follow, as stated\<close>

text \<open>
  The specification's acceptance test of a probed feed path: the \<^verbatim>\<open><rss\<close> or \<^verbatim>\<open><feed\<close>
  tag is looked for case-insensitively.
\<close>

definition spec_accepts_feed :: "response \<Rightarrow> bool" where
  "spec_accepts_feed rr =
     (status_code rr = 200 \<and>
      (str_in ''xml'' (case content_type rr of None \<Rightarrow> [] | Some ct \<Rightarrow> ct)
       \<or> str_in ''<rss'' (lower (resp_text rr)) \<or> str_in ''<feed'' (lower (resp_text rr))))"

text \<open>
  The specification's classification of a link: the keyword patterns are matched against
  the path of the resolved URL.
\<close>

definition spec_article_like :: "env \<Rightarrow> string \<Rightarrow> bool" where
  "spec_article_like e full =
     (article_pattern (urlparse_path e full) \<or> 3 \<le> length (path_segments e full))"

subsection \<open>The world before the i-th probe\<close>

text \<open>
  Every probe appends its request to the requests sent, whatever the answer: the world in
  which the next candidate is probed is known from the candidates probed before.
\<close>

definition after_probes :: "world \<Rightarrow> string list \<Rightarrow> world" where
  "after_probes w cs = w\<lparr>sent := sent w @ map probe_request cs\<rparr>"

definition accepted_at :: "env \<Rightarrow> world \<Rightarrow> string \<Rightarrow> bool" where
  "accepted_at e w c =
     (case http e w (probe_request c) of Inl f \<Rightarrow> False | Inr rr \<Rightarrow> accepts_feed rr)"

subsection \<open>A concrete environment\<close>

text \<open>
  One club site, \<^verbatim>\<open>http://club.example\<close>. Its home page answers 200 and every other URL
  fails to connect, unless it is given an answer in \<open>pages\<close>. The home page declares the
  \<^verbatim>\<open><link>\<close> elements \<open>lts\<close>; the feed at \<^verbatim>\<open>/feed.xml\<close> has the entries \<open>entries\<close>. The
  library functions are given on the few strings used here.
\<close>

definition simple_urljoin :: "string \<Rightarrow> string \<Rightarrow> string option" where
  "simple_urljoin base href =
     (if href = ''http://[bad'' then None
      else if startswith href ''/'' then Some (rstrip_slash base @ href)
      else Some href)"

definition simple_path :: "string \<Rightarrow> string" where
  "simple_path full =
     takeWhile (\<lambda>c. c \<noteq> CHR ''?'' \<and> c \<noteq> CHR ''#'')
       (dropWhile (\<lambda>c. c \<noteq> CHR ''/'')
          (if startswith full ''http://'' then drop 7 full
           else if startswith full ''https://'' then drop 8 full else full))"

definition home_page :: response where
  "home_page = \<lparr>status_code = 200, content_type = Some ''text/html'', resp_text = ''<html>''\<rparr>"

definition demo_env ::
  "(string \<times> response) list \<Rightarrow> link_tag list \<Rightarrow> anchor list \<Rightarrow> feed_entry list \<Rightarrow> env" where
  "demo_env pages lts anchors entries =
     \<lparr>http = (\<lambda>w rq.
         if req_url rq = ''http://club.example'' then Inr home_page
         else (case map_of pages (req_url rq) of None \<Rightarrow> Inl ConnectionError | Some r \<Rightarrow> Inr r)),
      feedparser_parse = (\<lambda>w u.
         if u = ''http://club.example/feed.xml'' then Some entries else None),
      soup_links = (\<lambda>t. lts),
      soup_anchors = (\<lambda>t. anchors),
      urljoin = simple_urljoin,
      urlparse_path = simple_path,
      clock = (\<lambda>n. int n),
      format_datetime = (\<lambda>t. ''Thu, 01 Jan 1970 00:00:00 -0000''),
      format_struct_time = (\<lambda>pub. Inr ''Wed, 01 May 2024 10:00:00 -0000''),
      fromisoformat = (\<lambda>s.
         if s = ''2024-05-02T10:00:00+00:00'' then Some (Aware 1714644000000000) else None),
      parsedate_to_datetime = (\<lambda>s.
         if s = ''Wed, 01 May 2024 10:00:00 -0000'' then Some (Naive 1714557600000000)
         else if s = ''Thu, 01 Jan 1970 00:00:00 -0000'' then Some (Naive 0)
         else None)\<rparr>"

definition world0 :: world where
  "world0 = \<lparr>sent = [], ticks = 0\<rparr>"

definition the_club :: club where
  "the_club = \<lparr>club_name = Some ''FC'', club_url = Some ''http://club.example''\<rparr>"

definition rss_link :: link_tag where
  "rss_link = \<lparr>lt_type = Some ''application/rss+xml'', lt_href = Some ''/feed.xml''\<rparr>"

text \<open>An RSS entry with a parsed publication time, and an Atom entry that has only \<^verbatim>\<open><updated>\<close>.\<close>

definition rss_entry :: "string \<Rightarrow> string \<Rightarrow> feed_entry" where
  "rss_entry t l =
     \<lparr>e_title = Some t, e_link = Some l, e_id = None, e_summary = Some ''Text'',
      e_published_parsed = Some (StructTime 2024 5 1 10 0 0 2 122 0),
      e_published = Some ''Wed, 01 May 2024 10:00:00 GMT'', e_updated = None\<rparr>"

definition atom_entry :: "string \<Rightarrow> string \<Rightarrow> feed_entry" where
  "atom_entry t l =
     \<lparr>e_title = Some t, e_link = Some l, e_id = Some l, e_summary = None,
      e_published_parsed = None, e_published = None,
      e_updated = Some ''2024-05-02T10:00:00Z''\<rparr>"

text \<open>Two consecutive runs over the same table; the feed has changed in between.\<close>

definition first_env :: env where
  "first_env = demo_env [] [rss_link] []
     [rss_entry ''Sieg - im Derby'' ''http://club.example/a'',
      rss_entry ''Neuer Trainer'' ''http://club.example/b'']"

definition second_env :: env where
  "second_env = demo_env [] [rss_link] []
     [rss_entry ''Pokal'' ''http://club.example/c'',
      rss_entry ''Neuer Trainer'' ''http://club.example/b'']"

definition first_run :: "(exn + item list) \<times> world \<times> seen_table" where
  "first_run = aggregate first_env world0 [] [the_club]"

definition second_run :: "(exn + item list) \<times> world \<times> seen_table" where
  "second_run = aggregate second_env (fst (snd first_run)) (snd (snd first_run)) [the_club]"

text \<open>What the two runs return.\<close>

definition home_request :: request where
  "home_request = \<lparr>req_url = ''http://club.example'', req_agent = Some USER_AGENT,
                    req_timeout = Some REQUEST_TIMEOUT\<rparr>"

definition feed_item :: "string \<Rightarrow> string \<Rightarrow> item" where
  "feed_item t l = \<lparr>title = t, link = l, description = ''Quelle: FC. Text'',
                     pubDate = ''Wed, 01 May 2024 10:00:00 -0000''\<rparr>"

definition first_out :: "item list" where
  "first_out = [feed_item ''Sieg - im Derby'' ''http://club.example/a'',
                feed_item ''FC: Neuer Trainer'' ''http://club.example/b'']"

definition first_world :: world where
  "first_world = \<lparr>sent = [home_request, feed_request ''http://club.example/feed.xml''],
                   ticks = 2\<rparr>"

definition first_table :: seen_table where
  "first_table = [\<lparr>row_id = 1, guid = ''http://club.example/a'', first_seen = 0\<rparr>,
                  \<lparr>row_id = 2, guid = ''http://club.example/b'', first_seen = 1\<rparr>]"

definition second_out :: "item list" where
  "second_out = [feed_item ''FC: Pokal'' ''http://club.example/c'']"

definition second_world :: world where
  "second_world = \<lparr>sent = [home_request, feed_request ''http://club.example/feed.xml'',
                            home_request, feed_request ''http://club.example/feed.xml''],
                    ticks = 3\<rparr>"

definition second_table :: seen_table where
  "second_table = first_table @ [\<lparr>row_id = 3, guid = ''http://club.example/c'', first_seen = 2\<rparr>]"

text \<open>A second club whose site is down, and three items as a source yields them.\<close>

definition down_club :: club where
  "down_club = \<lparr>club_name = Some ''SV'', club_url = Some ''http://down.example''\<rparr>"

definition raw_item :: "string \<Rightarrow> item" where
  "raw_item t = \<lparr>title = t, link = ''http://club.example/a'', description = ''Text'',
                  pubDate = ''Wed, 01 May 2024 10:00:00 -0000''\<rparr>"

text \<open>
  Home pages for discovery: one whose only feed \<^verbatim>\<open><link>\<close> has no href, one with no
  \<^verbatim>\<open><link>\<close> where \<^verbatim>\<open>/rss\<close> answers with a feed, and one with no \<^verbatim>\<open><link>\<close> where \<^verbatim>\<open>/feed\<close>
  answers with an upper-case \<^verbatim>\<open><RSS>\<close> document served as HTML.
\<close>

definition nohref_env :: env where
  "nohref_env = demo_env [] [\<lparr>lt_type = Some ''application/rss+xml'', lt_href = None\<rparr>] [] []"

definition rss_response :: response where
  "rss_response = \<lparr>status_code = 200, content_type = Some ''application/rss+xml'',
                    resp_text = ''<?xml''\<rparr>"

definition probe_env :: env where
  "probe_env = demo_env [(''http://club.example/rss'', rss_response)] [] [] []"

definition upper_response :: response where
  "upper_response = \<lparr>status_code = 200, content_type = Some ''text/html'',
                      resp_text = ''<RSS>''\<rparr>"

definition upper_env :: env where
  "upper_env = demo_env [(''http://club.example/feed'', upper_response)] [] [] []"

text \<open>A page to scrape: five anchors, of which two are article-like.\<close>

definition demo_anchors :: "anchor list" where
  "demo_anchors =
     [\<lparr>a_href = ''/news/heute'', a_text = ''Heute gewonnen''\<rparr>,
      \<lparr>a_href = ''/kontakt'', a_text = ''Kontakt hier''\<rparr>,
      \<lparr>a_href = ''#top'', a_text = ''Nach oben''\<rparr>,
      \<lparr>a_href = ''/a/b/c'', a_text = ''Tiefer Link''\<rparr>,
      \<lparr>a_href = ''/blog'', a_text = ''Blog''\<rparr>]"

definition scrape_env :: env where
  "scrape_env = demo_env [] [] demo_anchors []"

definition demo_full :: "anchor \<Rightarrow> string" where
  "demo_full a = ''http://club.example'' @ a_href a"

text \<open>
  A feed with an RSS entry and an Atom entry that has only \<^verbatim>\<open><updated>\<close>: the first gets a
  naive publication date, the second an aware one.
\<close>

definition mixed_env :: env where
  "mixed_env = demo_env [] [rss_link] []
     [rss_entry ''Sieg - im Derby'' ''http://club.example/a'',
      atom_entry ''Neuer Trainer'' ''http://club.example/b'']"

subsection \<open>The requests sent between two worlds\<close>

text \<open>
  \<open>sends Q w w'\<close>: the world \<open>w'\<close> has the requests of \<open>w\<close> and, after them, only requests
  that satisfy \<open>Q\<close>.
\<close>

definition sends :: "(request \<Rightarrow> bool) \<Rightarrow> world \<Rightarrow> world \<Rightarrow> bool" where
  "sends Q w w' = (\<exists>new. sent w' = sent w @ new \<and> list_all Q new)"

definition carries_agent :: "request \<Rightarrow> bool" where
  "carries_agent rq = (req_agent rq = Some USER_AGENT)"

definition agent_or_feed :: "request \<Rightarrow> bool" where
  "agent_or_feed rq = (carries_agent rq \<or> rq = feed_request (req_url rq))"

text \<open>
  Home pages with a malformed URL: in the href of the feed \<^verbatim>\<open><link>\<close>, and in the href of an
  anchor.
\<close>

definition bad_link_env :: env where
  "bad_link_env = demo_env []
     [\<lparr>lt_type = Some ''application/rss+xml'', lt_href = Some ''http://[bad''\<rparr>] [] []"

definition bad_anchor_env :: env where
  "bad_anchor_env = demo_env [] []
     [\<lparr>a_href = ''http://[bad'', a_text = ''Weiterlesen''\<rparr>] []"

text \<open>
  A feed that repeats a link, read for two clubs that share the site: the second entry
  repeats the link of the first, and the second club yields the same three entries again.
\<close>

definition repeat_env :: env where
  "repeat_env = demo_env [] [rss_link] []
     [rss_entry ''Sieg - im Derby'' ''http://club.example/a'',
      rss_entry ''Sieg - noch einmal'' ''http://club.example/a'',
      rss_entry ''Neuer Trainer'' ''http://club.example/b'']"

definition twin_club :: club where
  "twin_club = \<lparr>club_name = Some ''SV'', club_url = Some ''http://club.example''\<rparr>"

definition repeat_world :: world where
  "repeat_world = \<lparr>sent = [home_request, feed_request ''http://club.example/feed.xml'',
                            home_request, feed_request ''http://club.example/feed.xml''],
                    ticks = 2\<rparr>"

section \<open>Properties\<close>

subsection \<open>String operations\<close>

lemma startswith_iff: "startswith s p \<longleftrightarrow> (\<exists>r. s = p @ r)"
  by (induction s p rule: startswith.induct) auto

lemma str_in_iff: "str_in sub s \<longleftrightarrow> (\<exists>a b. s = a @ sub @ b)"
proof (induction s)
  case Nil
  then show ?case by auto
next
  case (Cons c cs)
  show ?case
  proof
    assume "str_in sub (c # cs)"
    then consider "startswith (c # cs) sub" | "str_in sub cs" by auto
    then show "\<exists>a b. c # cs = a @ sub @ b"
    proof cases
      case 1
      then obtain r where "c # cs = sub @ r" by (auto simp: startswith_iff)
      then have "c # cs = [] @ sub @ r" by simp
      then show ?thesis by blast
    next
      case 2
      then obtain a b where "cs = a @ sub @ b" using Cons.IH by auto
      then have "c # cs = (c # a) @ sub @ b" by simp
      then show ?thesis by blast
    qed
  next
    assume "\<exists>a b. c # cs = a @ sub @ b"
    then obtain a b where ab: "c # cs = a @ sub @ b" by blast
    show "str_in sub (c # cs)"
    proof (cases a)
      case Nil
      with ab have "startswith (c # cs) sub" by (auto simp: startswith_iff)
      then show ?thesis by simp
    next
      case (Cons a0 a')
      with ab have "cs = a' @ sub @ b" by simp
      then have "str_in sub cs" using Cons.IH by blast
      then show ?thesis by simp
    qed
  qed
qed

subsection \<open>The seen table\<close>

lemma is_seen_iff: "is_seen tbl g \<longleftrightarrow> g \<in> guid ` set tbl"
  by (auto simp: is_seen_def filter_empty_conv)

lemma mark_seen_new:
  "\<not> is_seen tbl g \<Longrightarrow>
   mark_seen e w tbl g =
     (Inr (tbl @ [\<lparr>row_id = next_row_id tbl, guid = g, first_seen = clock e (ticks w)\<rparr>]),
      w\<lparr>ticks := Suc (ticks w)\<rparr>)"
  by (simp add: mark_seen_def utcnow_def sql_insert_def is_seen_def)

lemma mark_seen_old:
  "is_seen tbl g \<Longrightarrow> mark_seen e w tbl g = (Inr tbl, w\<lparr>ticks := Suc (ticks w)\<rparr>)"
  by (simp add: mark_seen_def utcnow_def sql_insert_def is_seen_def)

lemma count_guid_distinct:
  "distinct (map guid tbl) \<Longrightarrow> g \<in> guid ` set tbl \<Longrightarrow> length (filter (\<lambda>r. guid r = g) tbl) = 1"
proof (induction tbl)
  case Nil
  then show ?case by simp
next
  case (Cons r tbl)
  show ?case
  proof (cases "guid r = g")
    case True
    with Cons.prems have "g \<notin> guid ` set tbl" by auto
    then have "filter (\<lambda>r. guid r = g) tbl = []" by (auto simp: filter_empty_conv)
    with True show ?thesis by simp
  next
    case False
    with Cons show ?thesis by auto
  qed
qed

text \<open>
  Claim C8. On a table that satisfies its UNIQUE constraint, \<open>mark_seen\<close> never raises; a
  second call for the same identifier returns without raising and leaves the table as the
  first call left it, with exactly one row for the identifier; and a call for an
  identifier that is already recorded leaves the table unchanged.
\<close>

theorem mark_seen_twice:
  assumes "distinct (map guid tbl)"
  shows "\<exists>tbl1 w1 w2.
           mark_seen e w tbl g = (Inr tbl1, w1) \<and>
           mark_seen e w1 tbl1 g = (Inr tbl1, w2) \<and>
           (is_seen tbl g \<longrightarrow> tbl1 = tbl) \<and>
           length (filter (\<lambda>r. guid r = g) tbl1) = 1 \<and>
           distinct (map guid tbl1)"
proof (cases "is_seen tbl g")
  case True
  then have "length (filter (\<lambda>r. guid r = g) tbl) = 1"
    using assms count_guid_distinct by (simp add: is_seen_iff)
  with True assms show ?thesis by (simp add: mark_seen_old)
next
  case False
  let ?t = "tbl @ [\<lparr>row_id = next_row_id tbl, guid = g, first_seen = clock e (ticks w)\<rparr>]"
  have d: "distinct (map guid ?t)" using assms False by (auto simp: is_seen_iff)
  have s: "is_seen ?t g" by (simp add: is_seen_iff)
  have "g \<in> guid ` set ?t" by simp
  from count_guid_distinct[OF d this]
  have c: "length (filter (\<lambda>r. guid r = g) ?t) = 1" .
  have m1: "mark_seen e w tbl g = (Inr ?t, w\<lparr>ticks := Suc (ticks w)\<rparr>)"
    using False by (rule mark_seen_new)
  have m2: "mark_seen e (w\<lparr>ticks := Suc (ticks w)\<rparr>) ?t g
            = (Inr ?t, w\<lparr>ticks := Suc (Suc (ticks w))\<rparr>)"
    using mark_seen_old[OF s, of e "w\<lparr>ticks := Suc (ticks w)\<rparr>"] by simp
  from m1 m2 c d False show ?thesis by blast
qed

subsection \<open>Deduplication\<close>

lemma dedup_items_Inr:
  "dedup_items e w tbl its = (Inr kept, w', tbl') \<Longrightarrow>
     link ` set kept \<inter> guid ` set tbl = {} \<and>
     guid ` set tbl' = guid ` set tbl \<union> link ` set kept \<and>
     distinct (map link kept) \<and> set kept \<subseteq> set its"
proof (induction its arbitrary: w tbl kept)
  case Nil
  then show ?case by simp
next
  case (Cons it its)
  show ?case
  proof (cases "is_seen tbl (link it)")
    case True
    with Cons.prems have "dedup_items e w tbl its = (Inr kept, w', tbl')" by simp
    from Cons.IH[OF this] show ?thesis by auto
  next
    case False
    define t where "t = tbl @ [\<lparr>row_id = next_row_id tbl, guid = link it, first_seen = clock e (ticks w)\<rparr>]"
    define v where "v = w\<lparr>ticks := Suc (ticks w)\<rparr>"
    have ms: "mark_seen e w tbl (link it) = (Inr t, v)"
      unfolding t_def v_def using False by (rule mark_seen_new)
    from Cons.prems False ms
    have "(case dedup_items e v t its of
             (Inl x, st) \<Rightarrow> (Inl x, st)
           | (Inr kept, st) \<Rightarrow> (Inr (it # kept), st)) = (Inr kept, w', tbl')" by simp
    then obtain kept' where
      k1: "dedup_items e v t its = (Inr kept', w', tbl')" and k: "kept = it # kept'"
      by (auto split: prod.splits sum.splits)
    note IH = Cons.IH[OF k1]
    have g: "guid ` set t = insert (link it) (guid ` set tbl)"
      by (simp add: t_def)
    have n1: "link it \<notin> guid ` set tbl" using False by (simp add: is_seen_iff)
    have n2: "link it \<notin> link ` set kept'" using IH g by auto
    have c1: "link ` set (it # kept') \<inter> guid ` set tbl = {}" using IH g n1 by auto
    have c2: "guid ` set tbl' = guid ` set tbl \<union> link ` set (it # kept')" using IH g by auto
    have c3: "distinct (map link (it # kept'))" using IH n2 by simp
    have c4: "set (it # kept') \<subseteq> set (it # its)" using IH by auto
    from c1 c2 c3 c4 show ?thesis unfolding k by blast
  qed
qed

lemma dedup_items_no_exn: "fst (dedup_items e w tbl its) \<noteq> Inl x"
proof (induction its arbitrary: w tbl x)
  case Nil
  then show ?case by simp
next
  case (Cons it its)
  show ?case
  proof (cases "is_seen tbl (link it)")
    case True
    with Cons.IH[of w tbl] show ?thesis by simp
  next
    case False
    define t where "t = tbl @ [\<lparr>row_id = next_row_id tbl, guid = link it, first_seen = clock e (ticks w)\<rparr>]"
    define v where "v = w\<lparr>ticks := Suc (ticks w)\<rparr>"
    have ms: "mark_seen e w tbl (link it) = (Inr t, v)"
      unfolding t_def v_def using False by (rule mark_seen_new)
    have "\<And>y st. dedup_items e v t its \<noteq> (Inl y, st)"
      using Cons.IH[of v t] by (metis fst_conv)
    with False ms show ?thesis
      by (simp split: prod.splits sum.splits)
  qed
qed

lemma process_club_Inr:
  assumes "process_club e w tbl c = (Inr new_items, w', tbl')"
  shows "link ` set new_items \<inter> guid ` set tbl = {} \<and>
         guid ` set tbl' = guid ` set tbl \<union> link ` set new_items \<and>
         distinct (map link new_items)"
proof -
  from assms obtain w1 its where
    "dedup_items e w1 tbl its = (Inr new_items, w', tbl')"
    by (auto simp: process_club_def split: prod.splits sum.splits)
  from dedup_items_Inr[OF this] show ?thesis by simp
qed

lemma collect_items_Inr:
  "collect_items e w tbl cs = (Inr all_items, w', tbl') \<Longrightarrow>
     link ` set all_items \<inter> guid ` set tbl = {} \<and>
     guid ` set tbl' = guid ` set tbl \<union> link ` set all_items \<and>
     distinct (map link all_items)"
proof (induction cs arbitrary: w tbl all_items)
  case Nil
  then show ?case by simp
next
  case (Cons c cs)
  from Cons.prems
  have "(case process_club e w tbl c of
           (Inl x, st) \<Rightarrow> (Inl x, st)
         | (Inr new_items, w1, tbl1) \<Rightarrow>
             (case collect_items e w1 tbl1 cs of
                (Inl x, st) \<Rightarrow> (Inl x, st)
              | (Inr later, st) \<Rightarrow> (Inr (new_items @ later), st))) = (Inr all_items, w', tbl')"
    by simp
  then obtain new_items w1 tbl1 later where
    p: "process_club e w tbl c = (Inr new_items, w1, tbl1)" and
    c: "collect_items e w1 tbl1 cs = (Inr later, w', tbl')" and
    a: "all_items = new_items @ later"
    by (auto split: prod.splits sum.splits)
  define A where "A = link ` set new_items"
  define B where "B = link ` set later"
  define G where "G = guid ` set tbl"
  define G1 where "G1 = guid ` set tbl1"
  define G' where "G' = guid ` set tbl'"
  from process_club_Inr[OF p]
  have P: "A \<inter> G = {}" "G1 = G \<union> A" "distinct (map link new_items)"
    by (simp_all add: A_def G_def G1_def)
  from Cons.IH[OF c]
  have C: "B \<inter> G1 = {}" "G' = G1 \<union> B" "distinct (map link later)"
    by (simp_all add: B_def G1_def G'_def)
  have s: "link ` set all_items = A \<union> B" by (simp add: a A_def B_def image_Un)
  from P C have d: "A \<inter> B = {}" by blast
  have c1: "(A \<union> B) \<inter> G = {}" using P C by blast
  have c2: "G' = G \<union> (A \<union> B)" using P C by blast
  have c3: "distinct (map link all_items)"
    using P(3) C(3) d by (simp add: a A_def B_def)
  from c1 c2 c3 show ?case unfolding s G_def G'_def by simp
qed

lemma sort_keys_snd: "sort_keys e w its = (kis, w') \<Longrightarrow> map snd kis = its"
  by (induction its arbitrary: w kis) (auto split: prod.splits)

lemma aggregate_Inr:
  assumes "aggregate e w tbl clubs = (Inr out, w', tbl')"
  shows "\<exists>all_items w1. collect_items e w tbl clubs = (Inr all_items, w1, tbl') \<and>
           mset out = mset all_items"
proof -
  from assms obtain all_items w1 kis sorted_items where
    c: "collect_items e w tbl clubs = (Inr all_items, w1, tbl')" and
    k: "sort_keys e w1 all_items = (kis, w')" and
    s: "sort_reverse kis = Inr sorted_items" and
    out: "out = map snd sorted_items"
    by (auto simp: aggregate_def split: prod.splits sum.splits)
  from s have "mset sorted_items = mset kis"
    by (auto simp: sort_reverse_def split: if_splits)
  then have "mset (map snd sorted_items) = mset (map snd kis)" by simp
  with sort_keys_snd[OF k] out c show ?thesis by auto
qed

lemma aggregate_links:
  assumes "aggregate e w tbl clubs = (Inr out, w', tbl')"
  shows "link ` set out \<inter> guid ` set tbl = {}"
    and "guid ` set tbl' = guid ` set tbl \<union> link ` set out"
    and "distinct (map link out)"
proof -
  from aggregate_Inr[OF assms] obtain all_items w1 where
    c: "collect_items e w tbl clubs = (Inr all_items, w1, tbl')" and
    m: "mset out = mset all_items" by blast
  from m have s: "set out = set all_items" by (rule mset_eq_setD)
  from m have "mset (map link out) = mset (map link all_items)" by simp
  then have d: "distinct (map link out) = distinct (map link all_items)"
    by (rule mset_eq_imp_distinct_iff)
  note C = collect_items_Inr[OF c]
  from C s show "link ` set out \<inter> guid ` set tbl = {}" by simp
  from C s show "guid ` set tbl' = guid ` set tbl \<union> link ` set out" by simp
  from C d show "distinct (map link out)" by simp
qed

text \<open>
  Claim C1. In a run that returns, every item of the output had a link that was not in
  the seen table when the run started, no two items of the output have the same link
  (so the link of a kept item was not in the table at the moment the item was processed:
  the table then holds the links it started with and the links kept before), and the
  link of every item of the output is in the table when the run ends. For two consecutive
  runs over the same table, no link is in the output of both.
\<close>

theorem monotone_dedup:
  assumes "aggregate e1 w1 tbl0 clubs1 = (Inr out1, w1', tbl1)"
      and "aggregate e2 w2 tbl1 clubs2 = (Inr out2, w2', tbl2)"
  shows "(\<forall>it \<in> set out1. \<not> is_seen tbl0 (link it) \<and> is_seen tbl1 (link it)) \<and>
         (\<forall>it \<in> set out2. \<not> is_seen tbl1 (link it) \<and> is_seen tbl2 (link it)) \<and>
         distinct (map link out1) \<and> distinct (map link out2) \<and>
         link ` set out1 \<inter> link ` set out2 = {}"
proof -
  define A1 where "A1 = link ` set out1"
  define A2 where "A2 = link ` set out2"
  define G0 where "G0 = guid ` set tbl0"
  define G1 where "G1 = guid ` set tbl1"
  define G2 where "G2 = guid ` set tbl2"
  have r1: "A1 \<inter> G0 = {}" "G1 = G0 \<union> A1"
    using aggregate_links(1,2)[OF assms(1)] by (simp_all add: A1_def G0_def G1_def)
  have r2: "A2 \<inter> G1 = {}" "G2 = G1 \<union> A2"
    using aggregate_links(1,2)[OF assms(2)] by (simp_all add: A2_def G1_def G2_def)
  have m1: "\<And>it. it \<in> set out1 \<Longrightarrow> link it \<in> A1" by (simp add: A1_def)
  have m2: "\<And>it. it \<in> set out2 \<Longrightarrow> link it \<in> A2" by (simp add: A2_def)
  have p1: "\<forall>it \<in> set out1. link it \<notin> G0 \<and> link it \<in> G1"
    using r1 m1 by blast
  have p2: "\<forall>it \<in> set out2. link it \<notin> G1 \<and> link it \<in> G2"
    using r2 m2 by blast
  have p3: "A1 \<inter> A2 = {}" using r1 r2 by blast
  note d = aggregate_links(3)[OF assms(1)] aggregate_links(3)[OF assms(2)]
  from p1 p2 p3 d show ?thesis
    unfolding is_seen_iff A1_def A2_def G0_def G1_def G2_def by simp
qed

text \<open>
  Claim C10. Within one run, no two items of the output have the same link, whatever
  sources the items come from.
\<close>

theorem output_links_distinct:
  assumes "aggregate e w tbl clubs = (Inr out, w', tbl')"
  shows "distinct (map link out)"
  using assms by (rule aggregate_links(3))

subsection \<open>The concrete runs\<close>

lemmas demo_simps =
  aggregate_def process_club_def resolve_source_def truthy_def discover_rss_from_url_def
  http_get_def requests_get_def demo_env_def home_page_def world0_def the_club_def rss_link_def
  find_link_tags_def type_matches_def simple_urljoin_def rstrip_slash_def fetch_feed_items_def
  MAX_ITEMS_PER_SOURCE_def rss_entry_def atom_entry_def entry_pubdate_def attribute_item_def
  format_name_def
  is_seen_def mark_seen_def utcnow_def sql_insert_def next_row_id_def parse_date_def replace_Z_def
  sort_reverse_def mixed_keys_def feed_request_def probe_request_def candidates_def feed_paths_def
  guess_paths_def scrape_for_articles_def accepts_feed_def

lemmas out_simps =
  home_request_def feed_item_def first_out_def first_world_def first_table_def second_out_def
  second_world_def second_table_def

lemma first_run_eval: "first_run = (Inr first_out, first_world, first_table)"
  by (simp add: first_run_def first_env_def demo_simps out_simps)

lemma second_run_eval: "second_run = (Inr second_out, second_world, second_table)"
  unfolding second_run_def first_run_eval
  by (simp add: second_env_def demo_simps out_simps)

theorem mark_seen_twice_witness:
  "distinct (map guid ([] :: seen_table)) \<and>
   fst (mark_seen first_env world0 [] ''a'') = Inr [\<lparr>row_id = 1, guid = ''a'', first_seen = 0\<rparr>] \<and>
   fst (mark_seen first_env (snd (mark_seen first_env world0 [] ''a''))
          [\<lparr>row_id = 1, guid = ''a'', first_seen = 0\<rparr>] ''a'')
     = Inr [\<lparr>row_id = 1, guid = ''a'', first_seen = 0\<rparr>]"
  using mark_seen_twice[of "[]" first_env world0 "''a''"]
  by (simp add: first_env_def demo_simps)

theorem monotone_dedup_witness:
  "aggregate first_env world0 [] [the_club] = (Inr first_out, first_world, first_table) \<and>
   aggregate second_env first_world first_table [the_club]
     = (Inr second_out, second_world, second_table) \<and>
   first_out \<noteq> [] \<and> second_out \<noteq> [] \<and>
   link ` set first_out \<inter> link ` set second_out = {}"
proof -
  have h1: "aggregate first_env world0 [] [the_club] = (Inr first_out, first_world, first_table)"
    using first_run_eval by (simp add: first_run_def)
  have h2: "aggregate second_env first_world first_table [the_club]
              = (Inr second_out, second_world, second_table)"
    using second_run_eval by (simp add: second_run_def first_run_eval)
  from monotone_dedup[OF h1 h2]
  have "link ` set first_out \<inter> link ` set second_out = {}" by simp
  moreover have "first_out \<noteq> []" "second_out \<noteq> []"
    by (simp_all add: first_out_def second_out_def)
  ultimately show ?thesis using h1 h2 by simp
qed

text \<open>
  A run in which links repeat: the feed has the link \<^verbatim>\<open>/a\<close> twice, and the second club
  reads the same feed again. The second entry and all three entries of the second club are
  discarded; the output has two items.
\<close>

lemma repeat_fetch_eval:
  "map link (projr (fst (fetch_feed_items repeat_env world0 ''http://club.example/feed.xml'')))
     = [''http://club.example/a'', ''http://club.example/a'', ''http://club.example/b'']"
  by (simp add: repeat_env_def demo_simps)

lemma repeat_run_eval:
  "aggregate repeat_env world0 [] [the_club, twin_club]
     = (Inr first_out, repeat_world, first_table)"
  by (simp add: repeat_env_def twin_club_def repeat_world_def demo_simps out_simps)

theorem output_links_distinct_witness:
  "map link (projr (fst (fetch_feed_items repeat_env world0 ''http://club.example/feed.xml'')))
     = [''http://club.example/a'', ''http://club.example/a'', ''http://club.example/b''] \<and>
   aggregate repeat_env world0 [] [the_club, twin_club]
     = (Inr first_out, repeat_world, first_table) \<and>
   map link first_out = [''http://club.example/a'', ''http://club.example/b''] \<and>
   distinct (map link first_out)"
proof -
  from output_links_distinct[OF repeat_run_eval]
  have "distinct (map link first_out)" .
  moreover have "map link first_out = [''http://club.example/a'', ''http://club.example/b'']"
    by (simp add: first_out_def feed_item_def)
  ultimately show ?thesis using repeat_fetch_eval repeat_run_eval by simp
qed

subsection \<open>Attribution\<close>

lemma attribute_item_Some:
  "attribute_item (Some nm) it =
     Inr (it\<lparr>title := (if str_in '' - '' (title it) \<or> startswith (title it) (nm @ '':'')
                        then title it else nm @ '': '' @ title it),
             description := ''Quelle: '' @ nm @ ''. '' @ description it\<rparr>)"
  by (simp add: attribute_item_def format_name_def)

text \<open>
  Claim C3. For a source with a name, attribution never raises; the title of an item is
  unchanged when it contains \<^verbatim>\<open>" - "\<close> or starts with the name followed by a colon, and
  is otherwise the name, \<^verbatim>\<open>": "\<close> and the original title; the description is always
  \<^verbatim>\<open>"Quelle: <name>. "\<close> followed by the original description. Link and publication date
  are untouched.
\<close>

theorem attribution_result:
  "attribute_items (Some nm) its =
     Inr (map (\<lambda>it. it\<lparr>title := (if str_in '' - '' (title it) \<or> startswith (title it) (nm @ '':'')
                                   then title it else nm @ '': '' @ title it),
                        description := ''Quelle: '' @ nm @ ''. '' @ description it\<rparr>) its)"
  by (induction its) (simp_all add: attribute_item_Some)

subsection \<open>Failures of a fetch or of the feed parser\<close>

lemma http_get_Inl_discover:
  "fst (http_get e w url) = Inl x \<Longrightarrow>
   discover_rss_from_url e w url = (Inr None, snd (http_get e w url))"
  by (cases "http_get e w url") (simp add: discover_rss_from_url_def)

lemma http_get_Inl_scrape:
  "fst (http_get e w url) = Inl x \<Longrightarrow>
   scrape_for_articles e w url = (Inr [], snd (http_get e w url))"
  by (cases "http_get e w url") (simp add: scrape_for_articles_def)

lemma feedparser_None_fetch:
  "feedparser_parse e w url = None \<Longrightarrow> fst (fetch_feed_items e w url) = Inr []"
  by (simp add: fetch_feed_items_def)

lemma first_href_Inl: "first_href e url lts = Some (Inl x) \<Longrightarrow> x = ValueError"
  by (induction lts) (auto split: option.splits)

lemma discover_Inl: "fst (discover_rss_from_url e w url) = Inl x \<Longrightarrow> x = ValueError"
  by (auto simp: discover_rss_from_url_def split: prod.splits sum.splits option.splits
           dest: first_href_Inl)

lemma time_exn_cases: "time_exn f = ValueError \<or> time_exn f = OverflowError"
  by (cases f) simp_all

lemma entry_pubdate_Inl:
  "fst (entry_pubdate e w x) = Inl ex \<Longrightarrow> ex = ValueError \<or> ex = OverflowError"
  using time_exn_cases
  by (auto simp: entry_pubdate_def split: option.splits prod.splits sum.splits)

lemma entry_items_Inl:
  "fst (entry_items e w xs) = Inl ex \<Longrightarrow> ex = ValueError \<or> ex = OverflowError"
proof (induction xs arbitrary: w ex)
  case Nil
  then show ?case by simp
next
  case (Cons x xs)
  show ?case
  proof (cases "case truthy (e_link x) of Some l \<Rightarrow> Some l | None \<Rightarrow> truthy (e_id x)")
    case None
    with Cons show ?thesis by simp
  next
    case (Some l)
    obtain r w1 where p: "entry_pubdate e w x = (r, w1)" by (cases "entry_pubdate e w x")
    show ?thesis
    proof (cases r)
      case (Inl a)
      with p have "a = ValueError \<or> a = OverflowError"
        using entry_pubdate_Inl[of e w x a] by simp
      with Cons.prems Some p Inl show ?thesis by simp
    next
      case (Inr pd)
      obtain r2 w2 where q: "entry_items e w1 xs = (r2, w2)" by (cases "entry_items e w1 xs")
      show ?thesis
      proof (cases r2)
        case (Inl a)
        with q have "a = ValueError \<or> a = OverflowError" using Cons.IH[of w1] by simp
        with Cons.prems Some p Inr q Inl show ?thesis by simp
      next
        case (Inr its)
        with Cons.prems Some p \<open>r = Inr pd\<close> q show ?thesis by simp
      qed
    qed
  qed
qed

lemma fetch_feed_items_Inl:
  "fst (fetch_feed_items e w url) = Inl ex \<Longrightarrow> ex = ValueError \<or> ex = OverflowError"
proof (cases "feedparser_parse e w url")
  case None
  assume "fst (fetch_feed_items e w url) = Inl ex"
  with None show ?thesis by (simp add: fetch_feed_items_def)
next
  case (Some entries)
  assume "fst (fetch_feed_items e w url) = Inl ex"
  with Some have "fst (entry_items e (w\<lparr>sent := sent w @ [feed_request url]\<rparr>)
                         (take MAX_ITEMS_PER_SOURCE entries)) = Inl ex"
    by (simp add: fetch_feed_items_def)
  then show ?thesis by (rule entry_items_Inl)
qed

lemma article_candidates_Inl: "article_candidates e p anchors = Inl x \<Longrightarrow> x = ValueError"
  by (induction anchors) (auto split: if_splits option.splits sum.splits)

lemma scrape_Inl: "fst (scrape_for_articles e w p) = Inl x \<Longrightarrow> x = ValueError"
  by (auto simp: scrape_for_articles_def split: prod.splits sum.splits
           dest: article_candidates_Inl)

lemma resolve_source_Inl:
  assumes "fst (resolve_source e w url_opt) = Inl x"
  shows "x = ValueError \<or> x = OverflowError"
proof (cases "truthy url_opt")
  case None
  with assms show ?thesis by (simp add: resolve_source_def)
next
  case (Some url)
  obtain d w1 where d: "discover_rss_from_url e w url = (d, w1)"
    by (cases "discover_rss_from_url e w url")
  show ?thesis
  proof (cases d)
    case (Inl a)
    with d have "a = ValueError" using discover_Inl[of e w url a] by simp
    with assms Some d Inl show ?thesis by (simp add: resolve_source_def)
  next
    case (Inr rss)
    show ?thesis
    proof (cases "truthy rss")
      case (Some r)
      with assms \<open>truthy url_opt = Some url\<close> d Inr
      have "fst (fetch_feed_items e w1 r) = Inl x" by (simp add: resolve_source_def)
      then show ?thesis by (rule fetch_feed_items_Inl)
    next
      case None
      obtain g w2 where g: "try_guess_paths e w1 url guess_paths = (g, w2)"
        by (cases "try_guess_paths e w1 url guess_paths")
      show ?thesis
      proof (cases g)
        case (Some its)
        with assms \<open>truthy url_opt = Some url\<close> d Inr None g show ?thesis
          by (simp add: resolve_source_def)
      next
        case None2: None
        with assms \<open>truthy url_opt = Some url\<close> d Inr None g
        have "fst (scrape_for_articles e w2 url) = Inl x" by (simp add: resolve_source_def)
        then show ?thesis by (simp add: scrape_Inl)
      qed
    qed
  qed
qed

lemma attribute_items_Inl: "attribute_items n its = Inl x \<Longrightarrow> x = TypeError"
  by (induction its arbitrary: x)
     (auto simp: attribute_item_def split: if_splits option.splits sum.splits)

lemma process_club_Inl:
  assumes "fst (process_club e w tbl c) = Inl x"
  shows "x = ValueError \<or> x = OverflowError \<or> x = TypeError"
proof -
  obtain r w1 where r: "resolve_source e w (club_url c) = (r, w1)"
    by (cases "resolve_source e w (club_url c)")
  show ?thesis
  proof (cases r)
    case (Inl a)
    with r have "a = ValueError \<or> a = OverflowError"
      using resolve_source_Inl[of e w "club_url c" a] by simp
    with assms r Inl show ?thesis by (auto simp: process_club_def)
  next
    case (Inr src)
    show ?thesis
    proof (cases "attribute_items (club_name c) src")
      case (Inl a)
      then have "a = TypeError" by (rule attribute_items_Inl)
      with assms r Inr Inl show ?thesis by (simp add: process_club_def)
    next
      case Inr2: (Inr its)
      with assms r Inr have "fst (dedup_items e w1 tbl its) = Inl x"
        by (simp add: process_club_def)
      then show ?thesis by (simp add: dedup_items_no_exn)
    qed
  qed
qed

lemma collect_items_Inl:
  "fst (collect_items e w tbl cs) = Inl x \<Longrightarrow>
   x = ValueError \<or> x = OverflowError \<or> x = TypeError"
proof (induction cs arbitrary: w tbl x)
  case Nil
  then show ?case by simp
next
  case (Cons c cs)
  obtain r w1 tbl1 where p: "process_club e w tbl c = (r, w1, tbl1)"
    by (cases "process_club e w tbl c") auto
  show ?case
  proof (cases r)
    case (Inl a)
    with p have "a = ValueError \<or> a = OverflowError \<or> a = TypeError"
      using process_club_Inl[of e w tbl c a] by simp
    with Cons.prems p Inl show ?thesis by auto
  next
    case (Inr new_items)
    obtain r2 st where q: "collect_items e w1 tbl1 cs = (r2, st)"
      by (cases "collect_items e w1 tbl1 cs")
    show ?thesis
    proof (cases r2)
      case (Inl a)
      with q have "a = ValueError \<or> a = OverflowError \<or> a = TypeError"
        using Cons.IH[of w1 tbl1] by simp
      with Cons.prems p Inr q Inl show ?thesis by auto
    next
      case Inr2: (Inr later)
      with Cons.prems p Inr q show ?thesis by simp
    qed
  qed
qed

text \<open>
  What the handlers do catch. When the fetch of the page fails (a failed request or an
  error status), discovery returns \<open>None\<close> and the scraper returns no item; when the feed
  parser raises, the feed reader returns no item. No failed request, error status or feed
  parser failure comes out of the resolution of a source, nor out of the loop over the
  sources.
\<close>

theorem fetch_failures_are_caught:
  "(fst (http_get e w url) = Inl x \<longrightarrow>
      discover_rss_from_url e w url = (Inr None, snd (http_get e w url)) \<and>
      scrape_for_articles e w url = (Inr [], snd (http_get e w url))) \<and>
   (feedparser_parse e w url = None \<longrightarrow> fst (fetch_feed_items e w url) = Inr []) \<and>
   fst (resolve_source e w url_opt)
     \<notin> {Inl (RequestException f), Inl (HTTPError n), Inl FeedparserError} \<and>
   fst (collect_items e w tbl clubs)
     \<notin> {Inl (RequestException f), Inl (HTTPError n), Inl FeedparserError}"
proof -
  have r: "fst (resolve_source e w url_opt)
        \<notin> {Inl (RequestException f), Inl (HTTPError n), Inl FeedparserError}"
    using resolve_source_Inl[of e w url_opt] by auto
  have c: "fst (collect_items e w tbl clubs)
        \<notin> {Inl (RequestException f), Inl (HTTPError n), Inl FeedparserError}"
    using collect_items_Inl[of e w tbl clubs] by auto
  from r c show ?thesis
    by (simp add: http_get_Inl_discover http_get_Inl_scrape feedparser_None_fetch)
qed

theorem attribution_result_witness:
  "attribute_items (Some ''FC'')
     [raw_item ''Sieg - im Derby'', raw_item ''FC: schon da'', raw_item ''Neuer Trainer'']
   = Inr [feed_item ''Sieg - im Derby'' ''http://club.example/a'',
          feed_item ''FC: schon da'' ''http://club.example/a'',
          feed_item ''FC: Neuer Trainer'' ''http://club.example/a'']"
  using attribution_result[of "''FC''"
      "[raw_item ''Sieg - im Derby'', raw_item ''FC: schon da'', raw_item ''Neuer Trainer'']"]
  by (simp add: raw_item_def feed_item_def)

lemma down_eval:
  "fst (http_get first_env world0 ''http://down.example'') = Inl (RequestException ConnectionError)"
  by (simp add: first_env_def demo_simps)

lemma collect_down_eval:
  "fst (collect_items first_env world0 [] [down_club, the_club]) = Inr first_out"
  by (simp add: first_env_def demo_simps out_simps down_club_def)

theorem fetch_failures_are_caught_witness:
  "fst (http_get first_env world0 ''http://down.example'') = Inl (RequestException ConnectionError) \<and>
   fst (discover_rss_from_url first_env world0 ''http://down.example'') = Inr None \<and>
   fst (scrape_for_articles first_env world0 ''http://down.example'') = Inr [] \<and>
   feedparser_parse first_env world0 ''http://down.example'' = None \<and>
   fst (fetch_feed_items first_env world0 ''http://down.example'') = Inr [] \<and>
   fst (collect_items first_env world0 [] [down_club, the_club]) = Inr first_out"
proof -
  have p: "feedparser_parse first_env world0 ''http://down.example'' = None"
    by (simp add: first_env_def demo_env_def)
  from fetch_failures_are_caught[of first_env world0 "''http://down.example''"
         "RequestException ConnectionError"] down_eval p
  have "fst (discover_rss_from_url first_env world0 ''http://down.example'') = Inr None"
       "fst (scrape_for_articles first_env world0 ''http://down.example'') = Inr []"
       "fst (fetch_feed_items first_env world0 ''http://down.example'') = Inr []"
    by simp_all
  with down_eval p collect_down_eval show ?thesis by simp
qed

text \<open>
  Claim C4: the code does not follow it. The exceptions raised after the fetch are not
  caught. \<^verbatim>\<open>urljoin\<close> raises ValueError on the href \<^verbatim>\<open>http://[bad\<close>: when it is the href of
  the feed \<^verbatim>\<open><link>\<close> of the first club's page, discovery raises, the run ends with this
  exception after the one request, and the second club is never processed; when it is the
  href of an anchor of the page, the scraper raises and the run ends in the same way.
\<close>

theorem malformed_href_aborts_run:
  "urljoin bad_link_env ''http://club.example'' ''http://[bad'' = None \<and>
   aggregate bad_link_env world0 [] [the_club, down_club]
     = (Inl ValueError, \<lparr>sent = [home_request], ticks = 0\<rparr>, []) \<and>
   fst (scrape_for_articles bad_anchor_env world0 ''http://club.example'') = Inl ValueError \<and>
   fst (aggregate bad_anchor_env world0 [] [the_club, down_club]) = Inl ValueError"
  by (simp add: bad_link_env_def bad_anchor_env_def demo_simps home_request_def down_club_def)

subsection \<open>Feed discovery\<close>

lemma first_href_find:
  "first_href e url lts =
     (case find (\<lambda>lt. truthy (lt_href lt) \<noteq> None) lts of
        None \<Rightarrow> None
      | Some lt \<Rightarrow>
          (case truthy (lt_href lt) of
             None \<Rightarrow> None
           | Some href \<Rightarrow>
               Some (case urljoin e url href of None \<Rightarrow> Inl ValueError | Some u \<Rightarrow> Inr u)))"
  by (induction lts) (auto split: option.splits)

lemma http_get_sent:
  "http_get e w url = (r, w') \<Longrightarrow>
   w' = w\<lparr>sent := sent w @ [\<lparr>req_url = url, req_agent = Some USER_AGENT,
                                req_timeout = Some REQUEST_TIMEOUT\<rparr>]\<rparr>"
  by (auto simp: http_get_def requests_get_def split: sum.splits if_splits)

lemma truthy_Some: "truthy x = Some s \<longleftrightarrow> x = Some s \<and> s \<noteq> []"
  by (auto simp: truthy_def split: option.splits)

text \<open>
  Claim C5, amended. When the page is fetched, discovery looks at the \<^verbatim>\<open><link>\<close> elements
  whose type contains one of the three feed media types. The first of them that has a
  non-empty href decides: its href, resolved against the page URL, is returned, and the
  page request is the only request sent. Elements without an href are passed over, and
  when no such element has a non-empty href discovery goes on to probe the candidate
  paths.
\<close>

theorem discovery_by_link_tag:
  assumes "http_get e w url = (Inr r, w')"
  shows "(find (\<lambda>lt. truthy (lt_href lt) \<noteq> None) (find_link_tags (soup_links e (resp_text r)))
            = Some lt \<and> lt_href lt = Some href \<and> urljoin e url href = Some u
          \<longrightarrow> discover_rss_from_url e w url = (Inr (Some u), w') \<and>
              sent w' = sent w @ [\<lparr>req_url = url, req_agent = Some USER_AGENT,
                                   req_timeout = Some REQUEST_TIMEOUT\<rparr>]) \<and>
         (find (\<lambda>lt. truthy (lt_href lt) \<noteq> None) (find_link_tags (soup_links e (resp_text r)))
            = None
          \<longrightarrow> discover_rss_from_url e w url =
                (Inr (fst (probe_candidates e w' (candidates url))),
                 snd (probe_candidates e w' (candidates url))))"
proof (intro conjI impI)
  assume a: "find (\<lambda>lt. truthy (lt_href lt) \<noteq> None) (find_link_tags (soup_links e (resp_text r)))
            = Some lt \<and> lt_href lt = Some href \<and> urljoin e url href = Some u"
  then have "truthy (lt_href lt) \<noteq> None" by (auto simp: find_Some_iff)
  with a have t: "truthy (lt_href lt) = Some href" by (auto simp: truthy_def split: if_splits)
  from a t have "first_href e url (find_link_tags (soup_links e (resp_text r))) = Some (Inr u)"
    by (simp add: first_href_find)
  with assms show "discover_rss_from_url e w url = (Inr (Some u), w')"
    by (simp add: discover_rss_from_url_def)
  from http_get_sent[OF assms]
  show "sent w' = sent w @ [\<lparr>req_url = url, req_agent = Some USER_AGENT,
                             req_timeout = Some REQUEST_TIMEOUT\<rparr>]" by simp
next
  assume "find (\<lambda>lt. truthy (lt_href lt) \<noteq> None) (find_link_tags (soup_links e (resp_text r)))
            = None"
  then have "first_href e url (find_link_tags (soup_links e (resp_text r))) = None"
    by (simp add: first_href_find)
  with assms show "discover_rss_from_url e w url =
                (Inr (fst (probe_candidates e w' (candidates url))),
                 snd (probe_candidates e w' (candidates url)))"
    by (simp add: discover_rss_from_url_def split: prod.splits)
qed

lemma after_probes_Nil: "after_probes w [] = w"
  by (simp add: after_probes_def)

lemma after_probes_Cons:
  "after_probes (after_probes w [c]) cs = after_probes w (c # cs)"
  by (simp add: after_probes_def)

lemma find_upt_Suc:
  "find P [0..<Suc n] = (if P 0 then Some 0 else map_option Suc (find (\<lambda>i. P (Suc i)) [0..<n]))"
proof -
  have m: "\<And>xs. find P (map Suc xs) = map_option Suc (find (\<lambda>i. P (Suc i)) xs)"
  proof -
    fix xs show "find P (map Suc xs) = map_option Suc (find (\<lambda>i. P (Suc i)) xs)"
      by (induction xs) auto
  qed
  have "[0..<Suc n] = 0 # map Suc [0..<n]" by (simp add: upt_conv_Cons map_Suc_upt del: upt_Suc)
  then show ?thesis by (simp add: m del: upt_Suc)
qed

lemma probe_step:
  "probe_candidates e w (c # cs) =
     (if accepted_at e w c then (Some c, after_probes w [c])
      else probe_candidates e (after_probes w [c]) cs)"
  by (simp add: requests_get_def accepted_at_def after_probes_def split: sum.splits)

lemma probe_candidates_find:
  "fst (probe_candidates e w cs) =
     map_option (\<lambda>i. cs ! i)
       (find (\<lambda>i. accepted_at e (after_probes w (take i cs)) (cs ! i)) [0..<length cs])"
proof (induction cs arbitrary: w)
  case Nil
  then show ?case by simp
next
  case (Cons c cs)
  show ?case
  proof (cases "accepted_at e w c")
    case True
    then show ?thesis
      by (simp add: probe_step find_upt_Suc after_probes_Nil del: upt_Suc probe_candidates.simps)
  next
    case False
    have "fst (probe_candidates e w (c # cs)) = fst (probe_candidates e (after_probes w [c]) cs)"
      using False by (simp add: probe_step del: probe_candidates.simps)
    also have "\<dots> = map_option (\<lambda>i. cs ! i)
       (find (\<lambda>i. accepted_at e (after_probes (after_probes w [c]) (take i cs)) (cs ! i))
          [0..<length cs])" by (rule Cons.IH)
    finally show ?thesis using False
      by (simp add: find_upt_Suc after_probes_Nil after_probes_Cons option.map_comp comp_def
               del: upt_Suc probe_candidates.simps)
  qed
qed

lemma accepted_at_iff:
  "accepted_at e w c \<longleftrightarrow>
     (\<exists>rr. http e w (probe_request c) = Inr rr \<and> status_code rr = 200 \<and>
        (str_in ''xml'' (case content_type rr of None \<Rightarrow> [] | Some ct \<Rightarrow> ct)
         \<or> str_in ''<rss'' (resp_text rr) \<or> str_in ''<feed'' (resp_text rr)))"
  by (auto simp: accepted_at_def accepts_feed_def split: sum.splits)

text \<open>
  Claim C6, amended. When discovery reaches the probing, it returns the first candidate,
  in the fixed order, whose request succeeds with status 200 and either a Content-Type
  that contains \<^verbatim>\<open>xml\<close> or a body that contains \<^verbatim>\<open><rss\<close> or \<^verbatim>\<open><feed\<close> in exactly this
  (lower) case; it returns \<open>None\<close> when there is no such candidate.
\<close>

theorem probing_returns_first_accepted:
  assumes "http_get e w url = (Inr r, w')"
      and "find (\<lambda>lt. truthy (lt_href lt) \<noteq> None) (find_link_tags (soup_links e (resp_text r)))
             = None"
  shows "fst (discover_rss_from_url e w url) =
           Inr (map_option (\<lambda>i. candidates url ! i)
                  (find (\<lambda>i. accepted_at e (after_probes w' (take i (candidates url)))
                                (candidates url ! i))
                     [0..<length (candidates url)])) \<and>
         candidates url = map (\<lambda>p. rstrip_slash url @ p)
            [''/feed'', ''/rss'', ''/rss.xml'', ''/news/rss'', ''/news/feed'', ''/aktuelles/feed''] \<and>
         (accepted_at e w0 c \<longleftrightarrow>
            (\<exists>rr. http e w0 (probe_request c) = Inr rr \<and> status_code rr = 200 \<and>
               (str_in ''xml'' (case content_type rr of None \<Rightarrow> [] | Some ct \<Rightarrow> ct)
                \<or> str_in ''<rss'' (resp_text rr) \<or> str_in ''<feed'' (resp_text rr))))"
proof -
  from assms(2) have "first_href e url (find_link_tags (soup_links e (resp_text r))) = None"
    by (simp add: first_href_find)
  with assms(1) have "fst (discover_rss_from_url e w url)
      = Inr (fst (probe_candidates e w' (candidates url)))"
    by (simp add: discover_rss_from_url_def split: prod.splits)
  then have c1: "fst (discover_rss_from_url e w url) =
           Inr (map_option (\<lambda>i. candidates url ! i)
                  (find (\<lambda>i. accepted_at e (after_probes w' (take i (candidates url)))
                                (candidates url ! i))
                     [0..<length (candidates url)]))"
    by (simp only: probe_candidates_find)
  have c2: "candidates url = map (\<lambda>p. rstrip_slash url @ p)
            [''/feed'', ''/rss'', ''/rss.xml'', ''/news/rss'', ''/news/feed'', ''/aktuelles/feed'']"
    by (simp add: candidates_def feed_paths_def)
  note c3 = accepted_at_iff[of e w0 c]
  show ?thesis by (rule conjI[OF c1 conjI[OF c2 c3]])
qed

lemma home_eval:
  "http_get (demo_env pages lts anchors entries) world0 ''http://club.example''
     = (Inr home_page, \<lparr>sent = [home_request], ticks = 0\<rparr>)"
  by (simp add: demo_simps home_request_def)

theorem discovery_by_link_tag_witness:
  "http_get first_env world0 ''http://club.example''
     = (Inr home_page, \<lparr>sent = [home_request], ticks = 0\<rparr>) \<and>
   find (\<lambda>lt. truthy (lt_href lt) \<noteq> None)
     (find_link_tags (soup_links first_env (resp_text home_page))) = Some rss_link \<and>
   lt_href rss_link = Some ''/feed.xml'' \<and>
   urljoin first_env ''http://club.example'' ''/feed.xml'' = Some ''http://club.example/feed.xml'' \<and>
   discover_rss_from_url first_env world0 ''http://club.example''
     = (Inr (Some ''http://club.example/feed.xml''), \<lparr>sent = [home_request], ticks = 0\<rparr>)"
proof -
  have h: "http_get first_env world0 ''http://club.example''
     = (Inr home_page, \<lparr>sent = [home_request], ticks = 0\<rparr>)"
    unfolding first_env_def by (rule home_eval)
  have f: "find (\<lambda>lt. truthy (lt_href lt) \<noteq> None)
     (find_link_tags (soup_links first_env (resp_text home_page))) = Some rss_link"
    by (simp add: first_env_def demo_simps)
  have l: "lt_href rss_link = Some ''/feed.xml''" by (simp add: rss_link_def)
  have u: "urljoin first_env ''http://club.example'' ''/feed.xml''
            = Some ''http://club.example/feed.xml''"
    by (simp add: first_env_def demo_simps)
  from discovery_by_link_tag[OF h, of rss_link "''/feed.xml''" "''http://club.example/feed.xml''"]
    f l u
  have "discover_rss_from_url first_env world0 ''http://club.example''
     = (Inr (Some ''http://club.example/feed.xml''), \<lparr>sent = [home_request], ticks = 0\<rparr>)"
    by simp
  with h f l u show ?thesis by simp
qed

text \<open>
  Claim C5 as stated fails: the page has a \<^verbatim>\<open><link>\<close> element of type
  \<^verbatim>\<open>application/rss+xml\<close>, without href; discovery probes the six candidates and
  returns \<open>None\<close>.
\<close>

theorem link_without_href_counterexample:
  "find_link_tags (soup_links nohref_env (resp_text home_page))
     = [\<lparr>lt_type = Some ''application/rss+xml'', lt_href = None\<rparr>] \<and>
   http_get nohref_env world0 ''http://club.example''
     = (Inr home_page, \<lparr>sent = [home_request], ticks = 0\<rparr>) \<and>
   discover_rss_from_url nohref_env world0 ''http://club.example''
     = (Inr None,
        \<lparr>sent = home_request # map probe_request (candidates ''http://club.example''),
          ticks = 0\<rparr>)"
  by (simp add: nohref_env_def demo_simps home_request_def)

theorem probing_returns_first_accepted_witness:
  "http_get probe_env world0 ''http://club.example''
     = (Inr home_page, \<lparr>sent = [home_request], ticks = 0\<rparr>) \<and>
   find (\<lambda>lt. truthy (lt_href lt) \<noteq> None)
     (find_link_tags (soup_links probe_env (resp_text home_page))) = None \<and>
   fst (discover_rss_from_url probe_env world0 ''http://club.example'')
     = Inr (Some ''http://club.example/rss'')"
proof -
  have h: "http_get probe_env world0 ''http://club.example''
     = (Inr home_page, \<lparr>sent = [home_request], ticks = 0\<rparr>)"
    unfolding probe_env_def by (rule home_eval)
  have f: "find (\<lambda>lt. truthy (lt_href lt) \<noteq> None)
     (find_link_tags (soup_links probe_env (resp_text home_page))) = None"
    by (simp add: probe_env_def demo_simps)
  have d: "fst (discover_rss_from_url probe_env world0 ''http://club.example'')
     = Inr (Some ''http://club.example/rss'')"
    by (simp add: probe_env_def demo_simps rss_response_def)
  from probing_returns_first_accepted[OF h f] h f d show ?thesis by simp
qed

lemma lower_RSS: "lower ''<RSS>'' = ''<rss>''"
  by code_simp

text \<open>
  Claim C6 as stated fails: \<^verbatim>\<open>/feed\<close> answers 200 with a body that contains \<^verbatim>\<open><RSS\<close>,
  which a case-insensitive search accepts; discovery does not return it.
\<close>

theorem upper_case_tag_counterexample:
  "http upper_env \<lparr>sent = [home_request], ticks = 0\<rparr> (probe_request ''http://club.example/feed'')
     = Inr upper_response \<and>
   spec_accepts_feed upper_response \<and>
   fst (discover_rss_from_url upper_env world0 ''http://club.example'') = Inr None"
  by (simp add: upper_env_def demo_simps upper_response_def spec_accepts_feed_def lower_RSS)

subsection \<open>The heuristic scraper\<close>

lemma date_at_iff:
  "date_at s \<longleftrightarrow>
     (\<exists>d1 d2 d3 d4 m1 m2 b. s = [d1, d2, d3, d4, CHR ''/'', m1, m2] @ b \<and>
        is_digit d1 \<and> is_digit d2 \<and> is_digit d3 \<and> is_digit d4 \<and> is_digit m1 \<and> is_digit m2)"
  by (cases s rule: date_at.cases) auto

lemma search_date_iff:
  "search_date s \<longleftrightarrow>
     (\<exists>a d1 d2 d3 d4 m1 m2 b. s = a @ [d1, d2, d3, d4, CHR ''/'', m1, m2] @ b \<and>
        is_digit d1 \<and> is_digit d2 \<and> is_digit d3 \<and> is_digit d4 \<and> is_digit m1 \<and> is_digit m2)"
proof (induction s)
  case Nil
  then show ?case by simp
next
  case (Cons c cs)
  show ?case
  proof
    assume "search_date (c # cs)"
    then consider "date_at (c # cs)" | "search_date cs" by auto
    then show "\<exists>a d1 d2 d3 d4 m1 m2 b. c # cs = a @ [d1, d2, d3, d4, CHR ''/'', m1, m2] @ b \<and>
        is_digit d1 \<and> is_digit d2 \<and> is_digit d3 \<and> is_digit d4 \<and> is_digit m1 \<and> is_digit m2"
    proof cases
      case 1
      then obtain d1 d2 d3 d4 m1 m2 b where
        "c # cs = [] @ [d1, d2, d3, d4, CHR ''/'', m1, m2] @ b"
        "is_digit d1" "is_digit d2" "is_digit d3" "is_digit d4" "is_digit m1" "is_digit m2"
        unfolding date_at_iff by auto
      then show ?thesis by blast
    next
      case 2
      then obtain a d1 d2 d3 d4 m1 m2 b where
        e: "cs = a @ [d1, d2, d3, d4, CHR ''/'', m1, m2] @ b" and
        d: "is_digit d1" "is_digit d2" "is_digit d3" "is_digit d4" "is_digit m1" "is_digit m2"
        using Cons.IH by blast
      from e have "c # cs = (c # a) @ [d1, d2, d3, d4, CHR ''/'', m1, m2] @ b" by simp
      with d show ?thesis by blast
    qed
  next
    assume "\<exists>a d1 d2 d3 d4 m1 m2 b. c # cs = a @ [d1, d2, d3, d4, CHR ''/'', m1, m2] @ b \<and>
        is_digit d1 \<and> is_digit d2 \<and> is_digit d3 \<and> is_digit d4 \<and> is_digit m1 \<and> is_digit m2"
    then obtain a d1 d2 d3 d4 m1 m2 b where
      e: "c # cs = a @ [d1, d2, d3, d4, CHR ''/'', m1, m2] @ b" and
      d: "is_digit d1" "is_digit d2" "is_digit d3" "is_digit d4" "is_digit m1" "is_digit m2"
      by blast
    show "search_date (c # cs)"
    proof (cases a)
      case Nil
      with e d have "date_at (c # cs)" unfolding date_at_iff by auto
      then show ?thesis by simp
    next
      case (Cons a0 a')
      with e have "cs = a' @ [d1, d2, d3, d4, CHR ''/'', m1, m2] @ b" by simp
      with d have "search_date cs" using Cons.IH by blast
      then show ?thesis by simp
    qed
  qed
qed

lemma article_pattern_iff:
  "article_pattern full \<longleftrightarrow>
     (\<exists>p \<in> set [''/news/'', ''/article/'', ''/artikel/'', ''/aktuell'', ''/presse'', ''/blog'',
                  ''/berichte'', ''/nachrichten'', ''/news-''].
         \<exists>a b. lower full = a @ p @ b) \<or>
     (\<exists>a d1 d2 d3 d4 m1 m2 b. full = a @ [d1, d2, d3, d4, CHR ''/'', m1, m2] @ b \<and>
        is_digit d1 \<and> is_digit d2 \<and> is_digit d3 \<and> is_digit d4 \<and> is_digit m1 \<and> is_digit m2)"
  unfolding article_pattern_def keyword_patterns_def list_ex_iff str_in_iff search_date_iff
  by (rule refl)

lemma article_candidates_article_like:
  "article_candidates e page anchors = Inr cs \<Longrightarrow> list_all (\<lambda>lt. article_like e (fst lt)) cs"
proof (induction anchors arbitrary: cs)
  case Nil
  then show ?case by simp
next
  case (Cons a rest)
  show ?case
  proof (cases "a_text a = [] \<or> length (a_text a) < 5 \<or> startswith (a_href a) ''#''
                \<or> startswith (a_href a) ''mailto:''")
    case True
    with Cons.prems have "article_candidates e page rest = Inr cs"
      by (auto split: if_splits)
    then show ?thesis by (rule Cons.IH)
  next
    case False
    with Cons.prems obtain full cs' where
      u: "urljoin e page (a_href a) = Some full" and
      r: "article_candidates e page rest = Inr cs'" and
      c: "cs = (if article_like e full then (full, a_text a) # cs' else cs')"
      by (auto split: option.splits sum.splits if_splits)
    from Cons.IH[OF r] c show ?thesis by simp
  qed
qed

lemma unique_links_subset:
  "set (unique_links seen unique cs) \<subseteq> set unique \<union> set cs"
  by (induction seen unique cs rule: unique_links.induct) auto

lemma scraped_items_Cons:
  "fst (scraped_items e w page (lt # us)) =
     \<lparr>title = snd lt, link = fst lt, description = ''Artikel von '' @ page,
       pubDate = format_datetime e (clock e (ticks w))\<rparr>
     # fst (scraped_items e (w\<lparr>ticks := Suc (ticks w)\<rparr>) page us)"
  by (simp add: utcnow_def split: prod.splits)

lemma scraped_items_links:
  "map link (fst (scraped_items e w page us)) = map fst us"
proof (induction us arbitrary: w)
  case Nil
  then show ?case by simp
next
  case (Cons lt us)
  show ?case unfolding scraped_items_Cons by (simp add: Cons.IH)
qed

lemma scrape_article_like:
  assumes "fst (scrape_for_articles e w page) = Inr its"
  shows "list_all (\<lambda>it. article_like e (link it)) its"
proof (cases "http_get e w page")
  case (Pair res w')
  show ?thesis
  proof (cases res)
    case (Inl x)
    with Pair assms show ?thesis by (simp add: scrape_for_articles_def)
  next
    case (Inr r)
    show ?thesis
    proof (cases "article_candidates e page (soup_anchors e (resp_text r))")
      case (Inl x)
      with Pair Inr assms show ?thesis by (simp add: scrape_for_articles_def)
    next
      case Inr2: (Inr cands)
      define us where "us = unique_links [] [] cands"
      from Pair Inr Inr2 assms have i: "its = fst (scraped_items e w' page us)"
        by (simp add: scrape_for_articles_def us_def split: prod.splits)
      have "set us \<subseteq> set cands" unfolding us_def using unique_links_subset[of "[]" "[]" cands]
        by simp
      moreover from article_candidates_article_like[OF Inr2]
      have "\<forall>lt \<in> set cands. article_like e (fst lt)" by (simp add: list_all_iff)
      ultimately have "\<forall>l \<in> set (map fst us). article_like e l" by auto
      then have "\<forall>l \<in> set (map link its). article_like e l"
        by (simp only: i scraped_items_links)
      then show ?thesis by (simp add: list_all_iff)
    qed
  qed
qed

lemma article_candidates_filter:
  assumes "\<forall>a \<in> set anchors.
             5 \<le> length (a_text a) \<and> \<not> startswith (a_href a) ''#''
             \<and> \<not> startswith (a_href a) ''mailto:''
             \<longrightarrow> urljoin e page (a_href a) = Some (full a)"
  shows "article_candidates e page anchors =
           Inr (map (\<lambda>a. (full a, a_text a))
                  (filter (\<lambda>a. 5 \<le> length (a_text a) \<and> \<not> startswith (a_href a) ''#''
                               \<and> \<not> startswith (a_href a) ''mailto:''
                               \<and> article_like e (full a)) anchors))"
  using assms
proof (induction anchors)
  case Nil
  then show ?case by simp
next
  case (Cons a rest)
  from Cons.prems have r: "article_candidates e page rest =
           Inr (map (\<lambda>a. (full a, a_text a))
                  (filter (\<lambda>a. 5 \<le> length (a_text a) \<and> \<not> startswith (a_href a) ''#''
                               \<and> \<not> startswith (a_href a) ''mailto:''
                               \<and> article_like e (full a)) rest))"
    by (intro Cons.IH) simp
  show ?case
  proof (cases "5 \<le> length (a_text a) \<and> \<not> startswith (a_href a) ''#''
                \<and> \<not> startswith (a_href a) ''mailto:''")
    case True
    with Cons.prems have "urljoin e page (a_href a) = Some (full a)" by simp
    with True r show ?thesis by auto
  next
    case False
    with r show ?thesis by auto
  qed
qed

text \<open>
  Claim C7, amended. A surviving hyperlink is article-like exactly when its whole
  resolved URL (not only its path) contains, case-insensitively, one of the nine keyword
  patterns, or contains four digits, a slash and two digits, or when the path of the URL
  has at least three non-empty segments. Every item the scraper returns has an
  article-like link, and when every surviving href resolves, the candidates are exactly
  the surviving anchors with an article-like URL, in page order.
\<close>

theorem scraper_classification:
  "(article_like e u \<longleftrightarrow>
      (\<exists>p \<in> set [''/news/'', ''/article/'', ''/artikel/'', ''/aktuell'', ''/presse'', ''/blog'',
                   ''/berichte'', ''/nachrichten'', ''/news-''].
          \<exists>a b. lower u = a @ p @ b) \<or>
      (\<exists>a d1 d2 d3 d4 m1 m2 b. u = a @ [d1, d2, d3, d4, CHR ''/'', m1, m2] @ b \<and>
         is_digit d1 \<and> is_digit d2 \<and> is_digit d3 \<and> is_digit d4 \<and> is_digit m1 \<and> is_digit m2) \<or>
      3 \<le> length (filter (\<lambda>p. p \<noteq> []) (split_slash (urlparse_path e u)))) \<and>
   (fst (scrape_for_articles e w page) = Inr its \<longrightarrow>
      list_all (\<lambda>it. article_like e (link it)) its) \<and>
   ((\<forall>a \<in> set anchors.
        5 \<le> length (a_text a) \<and> \<not> startswith (a_href a) ''#''
        \<and> \<not> startswith (a_href a) ''mailto:''
        \<longrightarrow> urljoin e page (a_href a) = Some (full a)) \<longrightarrow>
    article_candidates e page anchors =
      Inr (map (\<lambda>a. (full a, a_text a))
             (filter (\<lambda>a. 5 \<le> length (a_text a) \<and> \<not> startswith (a_href a) ''#''
                          \<and> \<not> startswith (a_href a) ''mailto:''
                          \<and> article_like e (full a)) anchors)))"
proof (intro conjI impI)
  show "article_like e u \<longleftrightarrow>
      (\<exists>p \<in> set [''/news/'', ''/article/'', ''/artikel/'', ''/aktuell'', ''/presse'', ''/blog'',
                   ''/berichte'', ''/nachrichten'', ''/news-''].
          \<exists>a b. lower u = a @ p @ b) \<or>
      (\<exists>a d1 d2 d3 d4 m1 m2 b. u = a @ [d1, d2, d3, d4, CHR ''/'', m1, m2] @ b \<and>
         is_digit d1 \<and> is_digit d2 \<and> is_digit d3 \<and> is_digit d4 \<and> is_digit m1 \<and> is_digit m2) \<or>
      3 \<le> length (filter (\<lambda>p. p \<noteq> []) (split_slash (urlparse_path e u)))"
    unfolding article_like_def path_segments_def article_pattern_iff by (simp only: disj_assoc)
next
  assume "fst (scrape_for_articles e w page) = Inr its"
  then show "list_all (\<lambda>it. article_like e (link it)) its" by (rule scrape_article_like)
next
  assume "\<forall>a \<in> set anchors.
        5 \<le> length (a_text a) \<and> \<not> startswith (a_href a) ''#''
        \<and> \<not> startswith (a_href a) ''mailto:''
        \<longrightarrow> urljoin e page (a_href a) = Some (full a)"
  then show "article_candidates e page anchors =
      Inr (map (\<lambda>a. (full a, a_text a))
             (filter (\<lambda>a. 5 \<le> length (a_text a) \<and> \<not> startswith (a_href a) ''#''
                          \<and> \<not> startswith (a_href a) ''mailto:''
                          \<and> article_like e (full a)) anchors))"
    by (rule article_candidates_filter)
qed

lemmas scrape_simps =
  article_like_def article_pattern_def keyword_patterns_def path_segments_def lower_def
  lower_char_def is_digit_def simple_path_def

lemma demo_candidates_eval:
  "article_candidates scrape_env ''http://club.example'' demo_anchors =
     Inr [(''http://club.example/news/heute'', ''Heute gewonnen''),
          (''http://club.example/a/b/c'', ''Tiefer Link'')]"
  by (simp add: scrape_env_def demo_anchors_def demo_simps scrape_simps)

lemma demo_scrape_eval:
  "fst (scrape_for_articles scrape_env world0 ''http://club.example'') =
     Inr [\<lparr>title = ''Heute gewonnen'', link = ''http://club.example/news/heute'',
            description = ''Artikel von http://club.example'',
            pubDate = ''Thu, 01 Jan 1970 00:00:00 -0000''\<rparr>,
          \<lparr>title = ''Tiefer Link'', link = ''http://club.example/a/b/c'',
            description = ''Artikel von http://club.example'',
            pubDate = ''Thu, 01 Jan 1970 00:00:00 -0000''\<rparr>]"
  by (simp add: scrape_env_def demo_anchors_def demo_simps scrape_simps)

theorem scraper_classification_witness:
  "article_candidates scrape_env ''http://club.example'' demo_anchors =
     Inr [(''http://club.example/news/heute'', ''Heute gewonnen''),
          (''http://club.example/a/b/c'', ''Tiefer Link'')] \<and>
   map (\<lambda>a. (demo_full a, a_text a))
     (filter (\<lambda>a. 5 \<le> length (a_text a) \<and> \<not> startswith (a_href a) ''#''
                  \<and> \<not> startswith (a_href a) ''mailto:''
                  \<and> article_like scrape_env (demo_full a)) demo_anchors) =
     [(''http://club.example/news/heute'', ''Heute gewonnen''),
      (''http://club.example/a/b/c'', ''Tiefer Link'')] \<and>
   fst (scrape_for_articles scrape_env world0 ''http://club.example'') =
     Inr [\<lparr>title = ''Heute gewonnen'', link = ''http://club.example/news/heute'',
            description = ''Artikel von http://club.example'',
            pubDate = ''Thu, 01 Jan 1970 00:00:00 -0000''\<rparr>,
          \<lparr>title = ''Tiefer Link'', link = ''http://club.example/a/b/c'',
            description = ''Artikel von http://club.example'',
            pubDate = ''Thu, 01 Jan 1970 00:00:00 -0000''\<rparr>] \<and>
   article_like scrape_env ''http://club.example/news/heute'' \<and>
   article_like scrape_env ''http://club.example/a/b/c''"
proof -
  have hyp: "\<forall>a \<in> set demo_anchors.
        5 \<le> length (a_text a) \<and> \<not> startswith (a_href a) ''#''
        \<and> \<not> startswith (a_href a) ''mailto:''
        \<longrightarrow> urljoin scrape_env ''http://club.example'' (a_href a) = Some (demo_full a)"
    by (simp add: scrape_env_def demo_anchors_def demo_env_def simple_urljoin_def
          rstrip_slash_def demo_full_def)
  note t = scraper_classification[of scrape_env "''http://club.example''" world0
      "''http://club.example''" _ demo_anchors demo_full]
  have c: "article_candidates scrape_env ''http://club.example'' demo_anchors =
      Inr (map (\<lambda>a. (demo_full a, a_text a))
             (filter (\<lambda>a. 5 \<le> length (a_text a) \<and> \<not> startswith (a_href a) ''#''
                          \<and> \<not> startswith (a_href a) ''mailto:''
                          \<and> article_like scrape_env (demo_full a)) demo_anchors))"
    by (rule t[THEN conjunct2, THEN conjunct2, THEN mp, OF hyp])
  have "list_all (\<lambda>it. article_like scrape_env (link it))
     [\<lparr>title = ''Heute gewonnen'', link = ''http://club.example/news/heute'',
            description = ''Artikel von http://club.example'',
            pubDate = ''Thu, 01 Jan 1970 00:00:00 -0000''\<rparr>,
          \<lparr>title = ''Tiefer Link'', link = ''http://club.example/a/b/c'',
            description = ''Artikel von http://club.example'',
            pubDate = ''Thu, 01 Jan 1970 00:00:00 -0000''\<rparr>]"
    by (rule t[THEN conjunct2, THEN conjunct1, THEN mp, OF demo_scrape_eval])
  then have a: "article_like scrape_env ''http://club.example/news/heute''"
    "article_like scrape_env ''http://club.example/a/b/c''" by simp_all
  from c demo_candidates_eval a demo_scrape_eval show ?thesis by simp
qed

text \<open>
  Claim C7 as stated fails: the path \<^verbatim>\<open>/about\<close> matches no pattern and has one segment,
  but the host name makes the URL contain \<^verbatim>\<open>/blog\<close>, and the link is kept.
\<close>

theorem host_keyword_counterexample:
  "urlparse_path first_env ''http://blog.example.com/about'' = ''/about'' \<and>
   spec_article_like first_env ''http://blog.example.com/about'' = False \<and>
   article_like first_env ''http://blog.example.com/about'' = True \<and>
   article_candidates first_env ''http://club.example''
       [\<lparr>a_href = ''http://blog.example.com/about'', a_text = ''About us''\<rparr>]
     = Inr [(''http://blog.example.com/about'', ''About us'')]"
  by (simp add: first_env_def demo_simps scrape_simps spec_article_like_def)

subsection \<open>Sorting by publication date\<close>

text \<open>
  The date parser is total: the ISO form is tried first, then the RFC 2822 form, then the
  clock is read.
\<close>

lemma parse_date_value:
  "fst (parse_date e w s) =
     (case fromisoformat e (replace_Z s) of
        Some d \<Rightarrow> d
      | None \<Rightarrow>
          (case parsedate_to_datetime e s of
             Some d \<Rightarrow> d
           | None \<Rightarrow> Naive (clock e (ticks w))))"
  by (simp add: parse_date_def utcnow_def split: option.splits)

lemma sort_keys_parsed:
  "sort_keys e w its = (kis, w') \<Longrightarrow>
   list_all (\<lambda>ki. \<exists>w0. fst ki = fst (parse_date e w0 (pubDate (snd ki)))) kis"
proof (induction its arbitrary: w kis w')
  case Nil
  then show ?case by simp
next
  case (Cons it its)
  obtain k w1 where p: "parse_date e w (pubDate it) = (k, w1)"
    by (cases "parse_date e w (pubDate it)")
  obtain kis' w2 where s: "sort_keys e w1 its = (kis', w2)"
    by (cases "sort_keys e w1 its")
  from Cons.prems p s have k: "kis = (k, it) # kis'" by simp
  from p have "fst (k, it) = fst (parse_date e w (pubDate (snd (k, it))))" by simp
  then have "\<exists>w0. fst (k, it) = fst (parse_date e w0 (pubDate (snd (k, it))))" by blast
  with Cons.IH[OF s] k show ?case by simp
qed

lemma sort_reverse_sorted:
  assumes "sort_reverse kis = Inr s"
  shows "sorted_wrt (\<lambda>a b. dt_value (fst b) \<le> dt_value (fst a)) s"
    and "mset s = mset kis"
    and "\<not> mixed_keys (map fst kis)"
proof -
  from assms have m: "\<not> mixed_keys (map fst kis)"
    and s: "s = sort_key (\<lambda>ki. - dt_value (fst ki)) kis"
    by (auto simp: sort_reverse_def split: if_splits)
  have "sorted (map (\<lambda>ki. - dt_value (fst ki)) s)" unfolding s by (rule sorted_sort_key)
  then show "sorted_wrt (\<lambda>a b. dt_value (fst b) \<le> dt_value (fst a)) s"
    by (simp add: sorted_map)
  show "mset s = mset kis" unfolding s by simp
  show "\<not> mixed_keys (map fst kis)" by (rule m)
qed

text \<open>
  When the run returns, the output is sorted, most recent first, by the keys that the
  date parser gave to the items, and these keys are all naive or all aware.
\<close>

lemma aggregate_sorted:
  assumes "aggregate e w tbl clubs = (Inr out, w', tbl')"
  shows "\<exists>s. map snd s = out \<and>
              sorted_wrt (\<lambda>a b. dt_value (fst b) \<le> dt_value (fst a)) s \<and>
              \<not> mixed_keys (map fst s) \<and>
              list_all (\<lambda>ki. \<exists>w0. fst ki = fst (parse_date e w0 (pubDate (snd ki)))) s"
proof -
  from assms obtain all_items w1 kis s where
    k: "sort_keys e w1 all_items = (kis, w')" and
    s: "sort_reverse kis = Inr s" and
    out: "out = map snd s"
    by (auto simp: aggregate_def split: prod.splits sum.splits)
  note S = sort_reverse_sorted[OF s]
  from S(2) have e: "set s = set kis" by (rule mset_eq_setD)
  from S(2) have "mset (map fst s) = mset (map fst kis)" by simp
  then have "set (map fst s) = set (map fst kis)" by (rule mset_eq_setD)
  with S(3) have m: "\<not> mixed_keys (map fst s)"
    by (simp add: mixed_keys_def list_ex_iff)
  from sort_keys_parsed[OF k] e
  have p: "list_all (\<lambda>ki. \<exists>w0. fst ki = fst (parse_date e w0 (pubDate (snd ki)))) s"
    by (simp add: list_all_iff)
  from out S(1) m p show ?thesis by blast
qed

text \<open>When the keys are not all naive or all aware, the sort raises and the run has no output.\<close>

lemma aggregate_mixed_raises:
  assumes "collect_items e w tbl clubs = (Inr all_items, w1, tbl1)"
      and "mixed_keys (map fst (fst (sort_keys e w1 all_items)))"
  shows "fst (aggregate e w tbl clubs) = Inl TypeError"
proof -
  obtain kis w2 where k: "sort_keys e w1 all_items = (kis, w2)"
    by (cases "sort_keys e w1 all_items")
  with assms(2) have "mixed_keys (map fst kis)" by simp
  with assms(1) k show ?thesis by (simp add: aggregate_def sort_reverse_def)
qed

text \<open>
  Claim C2: the code does not follow it. A feed with an RSS entry (its date is formatted
  from the parsed time, which \<^verbatim>\<open>parse_date\<close> reads back as a naive \<^verbatim>\<open>datetime\<close>) and an
  Atom entry that has only \<^verbatim>\<open><updated>\<close> (an ISO string with \<^verbatim>\<open>Z\<close>, parsed as an aware
  \<^verbatim>\<open>datetime\<close>): both items are collected, the parser returns a value for both, and the
  sort raises TypeError, so the run returns no output at all.
\<close>

theorem mixed_dates_raise:
  "fst (collect_items mixed_env world0 [] [the_club]) =
     Inr [\<lparr>title = ''Sieg - im Derby'', link = ''http://club.example/a'',
            description = ''Quelle: FC. Text'', pubDate = ''Wed, 01 May 2024 10:00:00 -0000''\<rparr>,
          \<lparr>title = ''FC: Neuer Trainer'', link = ''http://club.example/b'',
            description = ''Quelle: FC. '', pubDate = ''2024-05-02T10:00:00Z''\<rparr>] \<and>
   fst (parse_date mixed_env world0 ''Wed, 01 May 2024 10:00:00 -0000'') = Naive 1714557600000000 \<and>
   fst (parse_date mixed_env world0 ''2024-05-02T10:00:00Z'') = Aware 1714644000000000 \<and>
   fst (aggregate mixed_env world0 [] [the_club]) = Inl TypeError"
  by (simp add: mixed_env_def demo_simps)

subsection \<open>The User-Agent of the requests\<close>

lemma sends_refl: "sends Q w w"
  by (simp add: sends_def)

lemma sends_trans: "sends Q w w1 \<Longrightarrow> sends Q w1 w2 \<Longrightarrow> sends Q w w2"
proof -
  assume "sends Q w w1" "sends Q w1 w2"
  then obtain n1 n2 where
    a: "sent w1 = sent w @ n1" "list_all Q n1" and
    b: "sent w2 = sent w1 @ n2" "list_all Q n2"
    unfolding sends_def by blast
  from a b have "sent w2 = sent w @ (n1 @ n2)" "list_all Q (n1 @ n2)" by simp_all
  then show "sends Q w w2" unfolding sends_def by blast
qed

lemma sends_mono: "(\<And>rq. P rq \<Longrightarrow> Q rq) \<Longrightarrow> sends P w w' \<Longrightarrow> sends Q w w'"
  unfolding sends_def list_all_iff by blast

lemma sends_utcnow: "sends Q w (snd (utcnow e w))"
  by (simp add: sends_def utcnow_def)

lemma sends_requests_get: "Q rq \<Longrightarrow> sends Q w (snd (requests_get e w rq))"
  by (simp add: sends_def requests_get_def)

lemma carries_agent_probe: "carries_agent (probe_request c)"
  by (simp add: carries_agent_def probe_request_def)

lemma sends_http_get: "sends carries_agent w (snd (http_get e w url))"
proof -
  have "snd (http_get e w url) =
        snd (requests_get e w \<lparr>req_url = url, req_agent = Some USER_AGENT,
                                req_timeout = Some REQUEST_TIMEOUT\<rparr>)"
    by (simp add: http_get_def split: prod.splits sum.splits)
  then show ?thesis by (simp add: sends_requests_get carries_agent_def)
qed

lemma sends_probe_candidates: "sends carries_agent w (snd (probe_candidates e w cs))"
proof (induction cs arbitrary: w)
  case Nil
  then show ?case by (simp add: sends_refl)
next
  case (Cons c cs)
  obtain r w1 where g: "requests_get e w (probe_request c) = (r, w1)"
    by (cases "requests_get e w (probe_request c)")
  have s1: "sends carries_agent w w1"
    using sends_requests_get[of carries_agent "probe_request c" w e] g
    by (simp add: carries_agent_probe)
  have "snd (probe_candidates e w (c # cs)) = w1
        \<or> snd (probe_candidates e w (c # cs)) = snd (probe_candidates e w1 cs)"
    using g by (simp split: sum.splits)
  then show ?case
  proof
    assume "snd (probe_candidates e w (c # cs)) = w1"
    with s1 show ?thesis by simp
  next
    assume "snd (probe_candidates e w (c # cs)) = snd (probe_candidates e w1 cs)"
    with sends_trans[OF s1 Cons.IH[of w1]] show ?thesis by simp
  qed
qed

lemma sends_discover: "sends carries_agent w (snd (discover_rss_from_url e w url))"
proof -
  obtain r w1 where h: "http_get e w url = (r, w1)" by (cases "http_get e w url")
  have s1: "sends carries_agent w w1" using sends_http_get[of w e url] h by simp
  have "snd (discover_rss_from_url e w url) = w1
        \<or> snd (discover_rss_from_url e w url) = snd (probe_candidates e w1 (candidates url))"
    using h by (simp add: discover_rss_from_url_def split: sum.splits option.splits prod.splits)
  then show ?thesis
  proof
    assume "snd (discover_rss_from_url e w url) = w1"
    with s1 show ?thesis by simp
  next
    assume "snd (discover_rss_from_url e w url) = snd (probe_candidates e w1 (candidates url))"
    with sends_trans[OF s1 sends_probe_candidates[of w1 e "candidates url"]] show ?thesis by simp
  qed
qed

lemma sent_entry_pubdate: "sent (snd (entry_pubdate e w x)) = sent w"
  by (simp add: entry_pubdate_def utcnow_def split: option.splits)

lemma sent_entry_items: "sent (snd (entry_items e w xs)) = sent w"
proof (induction xs arbitrary: w)
  case Nil
  then show ?case by simp
next
  case (Cons x xs)
  obtain r w1 where p: "entry_pubdate e w x = (r, w1)" by (cases "entry_pubdate e w x")
  from sent_entry_pubdate[of e w x] p have s1: "sent w1 = sent w" by simp
  have "snd (entry_items e w (x # xs)) = snd (entry_items e w xs)
        \<or> snd (entry_items e w (x # xs)) = w1
        \<or> snd (entry_items e w (x # xs)) = snd (entry_items e w1 xs)"
    using p by (simp split: option.splits sum.splits prod.splits)
  with Cons.IH[of w] Cons.IH[of w1] s1 show ?case by auto
qed

lemma sends_fetch_feed_items: "sends agent_or_feed w (snd (fetch_feed_items e w url))"
proof -
  have "sent (snd (fetch_feed_items e w url)) = sent w @ [feed_request url]"
    by (simp add: fetch_feed_items_def sent_entry_items split: option.splits)
  moreover have "agent_or_feed (feed_request url)"
    by (simp add: agent_or_feed_def feed_request_def)
  ultimately show ?thesis by (simp add: sends_def)
qed

lemma sent_scraped_items: "sent (snd (scraped_items e w page us)) = sent w"
proof (induction us arbitrary: w)
  case Nil
  then show ?case by simp
next
  case (Cons lt us)
  have "snd (scraped_items e w page (lt # us))
        = snd (scraped_items e (w\<lparr>ticks := Suc (ticks w)\<rparr>) page us)"
    by (simp add: utcnow_def split: prod.splits)
  with Cons.IH[of "w\<lparr>ticks := Suc (ticks w)\<rparr>"] show ?case by simp
qed

lemma sends_scrape: "sends carries_agent w (snd (scrape_for_articles e w page))"
proof -
  obtain r w1 where h: "http_get e w page = (r, w1)" by (cases "http_get e w page")
  have s1: "sends carries_agent w w1" using sends_http_get[of w e page] h by simp
  have "sent (snd (scrape_for_articles e w page)) = sent w1"
    using h by (simp add: scrape_for_articles_def sent_scraped_items split_beta
                     split: sum.splits)
  with s1 show ?thesis by (simp add: sends_def)
qed

lemma sends_try_guess_paths: "sends carries_agent w (snd (try_guess_paths e w url gps))"
proof (induction gps arbitrary: w)
  case Nil
  then show ?case by (simp add: sends_refl)
next
  case (Cons gp gps)
  define g where "g = rstrip_slash url @ gp"
  obtain r w1 where q: "requests_get e w (probe_request g) = (r, w1)"
    by (cases "requests_get e w (probe_request g)")
  have s1: "sends carries_agent w w1"
    using sends_requests_get[of carries_agent "probe_request g" w e] q
    by (simp add: carries_agent_probe)
  obtain r2 w2 where s: "scrape_for_articles e w1 g = (r2, w2)"
    by (cases "scrape_for_articles e w1 g")
  have s2: "sends carries_agent w w2"
    using sends_trans[OF s1 sends_scrape[of w1 e g]] s by simp
  have "snd (try_guess_paths e w url (gp # gps)) = snd (try_guess_paths e w1 url gps)
        \<or> snd (try_guess_paths e w url (gp # gps)) = snd (try_guess_paths e w2 url gps)
        \<or> snd (try_guess_paths e w url (gp # gps)) = w2"
    using q s by (simp add: g_def split: sum.splits)
  with sends_trans[OF s1 Cons.IH[of w1]] sends_trans[OF s2 Cons.IH[of w2]] s2
  show ?case by auto
qed

lemma sends_resolve_source: "sends agent_or_feed w (snd (resolve_source e w url_opt))"
proof (cases "truthy url_opt")
  case None
  then show ?thesis by (simp add: resolve_source_def sends_refl)
next
  case (Some url)
  have m: "\<And>a b. sends carries_agent a b \<Longrightarrow> sends agent_or_feed a b"
    by (rule sends_mono[of carries_agent agent_or_feed]) (simp add: agent_or_feed_def)
  obtain d w1 where d: "discover_rss_from_url e w url = (d, w1)"
    by (cases "discover_rss_from_url e w url")
  have s1: "sends agent_or_feed w w1" using m[OF sends_discover[of w e url]] d by simp
  obtain g w2 where g: "try_guess_paths e w1 url guess_paths = (g, w2)"
    by (cases "try_guess_paths e w1 url guess_paths")
  have s2: "sends agent_or_feed w w2"
    using sends_trans[OF s1 m[OF sends_try_guess_paths[of w1 e url guess_paths]]] g by simp
  have "snd (resolve_source e w url_opt) = w1
        \<or> (\<exists>r. snd (resolve_source e w url_opt) = snd (fetch_feed_items e w1 r))
        \<or> snd (resolve_source e w url_opt) = w2
        \<or> snd (resolve_source e w url_opt) = snd (scrape_for_articles e w2 url)"
    using Some d g by (auto simp add: resolve_source_def split: sum.splits option.splits)
  moreover have "\<And>r. sends agent_or_feed w (snd (fetch_feed_items e w1 r))"
    using sends_trans[OF s1 sends_fetch_feed_items] .
  moreover have "sends agent_or_feed w (snd (scrape_for_articles e w2 url))"
    using sends_trans[OF s2 m[OF sends_scrape]] .
  ultimately show ?thesis using s1 s2 by auto
qed

lemma sent_dedup_items: "sent (fst (snd (dedup_items e w tbl its))) = sent w"
proof (induction its arbitrary: w tbl)
  case Nil
  then show ?case by simp
next
  case (Cons it its)
  show ?case
  proof (cases "is_seen tbl (link it)")
    case True
    with Cons.IH[of w tbl] show ?thesis by simp
  next
    case False
    define t where "t = tbl @ [\<lparr>row_id = next_row_id tbl, guid = link it, first_seen = clock e (ticks w)\<rparr>]"
    define v where "v = w\<lparr>ticks := Suc (ticks w)\<rparr>"
    have ms: "mark_seen e w tbl (link it) = (Inr t, v)"
      unfolding t_def v_def using False by (rule mark_seen_new)
    have "fst (snd (dedup_items e w tbl (it # its))) = fst (snd (dedup_items e v t its))"
      using False ms by (simp split: prod.splits sum.splits)
    with Cons.IH[of v t] show ?thesis by (simp add: v_def)
  qed
qed

lemma sends_process_club: "sends agent_or_feed w (fst (snd (process_club e w tbl c)))"
proof -
  obtain r w1 where r: "resolve_source e w (club_url c) = (r, w1)"
    by (cases "resolve_source e w (club_url c)")
  have s1: "sends agent_or_feed w w1" using sends_resolve_source[of w e "club_url c"] r by simp
  have "sent (fst (snd (process_club e w tbl c))) = sent w1"
    using r by (simp add: process_club_def sent_dedup_items split: sum.splits)
  with s1 show ?thesis by (simp add: sends_def)
qed

lemma sends_collect_items: "sends agent_or_feed w (fst (snd (collect_items e w tbl cs)))"
proof (induction cs arbitrary: w tbl)
  case Nil
  then show ?case by (simp add: sends_refl)
next
  case (Cons c cs)
  obtain r w1 tbl1 where p: "process_club e w tbl c = (r, w1, tbl1)"
    by (cases "process_club e w tbl c") auto
  have s1: "sends agent_or_feed w w1" using sends_process_club[of w e tbl c] p by simp
  have "fst (snd (collect_items e w tbl (c # cs))) = w1
        \<or> fst (snd (collect_items e w tbl (c # cs))) = fst (snd (collect_items e w1 tbl1 cs))"
    using p by (simp split: sum.splits prod.splits)
  with s1 sends_trans[OF s1 Cons.IH[of w1 tbl1]] show ?case by auto
qed

lemma sent_parse_date: "sent (snd (parse_date e w s)) = sent w"
  by (simp add: parse_date_def utcnow_def split: option.splits)

lemma sent_sort_keys: "sent (snd (sort_keys e w its)) = sent w"
proof (induction its arbitrary: w)
  case Nil
  then show ?case by simp
next
  case (Cons it its)
  obtain k w1 where p: "parse_date e w (pubDate it) = (k, w1)"
    by (cases "parse_date e w (pubDate it)")
  from sent_parse_date[of e w "pubDate it"] p have s1: "sent w1 = sent w" by simp
  have "snd (sort_keys e w (it # its)) = snd (sort_keys e w1 its)"
    using p by (simp split: prod.splits)
  with Cons.IH[of w1] s1 show ?case by simp
qed

lemma sends_aggregate: "sends agent_or_feed w (fst (snd (aggregate e w tbl clubs)))"
proof -
  obtain r w1 tbl1 where c: "collect_items e w tbl clubs = (r, w1, tbl1)"
    by (cases "collect_items e w tbl clubs") auto
  have s1: "sends agent_or_feed w w1" using sends_collect_items[of w e tbl clubs] c by simp
  have "sent (fst (snd (aggregate e w tbl clubs))) = sent w1"
    using c by (simp add: aggregate_def sent_sort_keys split_beta split: sum.splits)
  with s1 show ?thesis by (simp add: sends_def)
qed

text \<open>
  Every request of a run either carries the client identifier or is the request by which
  the feed parser fetches a feed.
\<close>

lemma requests_of_a_run:
  "\<exists>new. sent (fst (snd (aggregate e w tbl clubs))) = sent w @ new \<and>
          list_all (\<lambda>rq. req_agent rq = Some USER_AGENT \<or> rq = feed_request (req_url rq)) new"
proof -
  have "agent_or_feed = (\<lambda>rq. req_agent rq = Some USER_AGENT \<or> rq = feed_request (req_url rq))"
    by (rule ext) (simp add: agent_or_feed_def carries_agent_def)
  with sends_aggregate[of w e tbl clubs] show ?thesis by (simp add: sends_def)
qed

text \<open>
  Claim C9: the code does not follow it. In a run that discovers a feed, the page request
  carries the client identifier, and the request that fetches the feed, issued by
  \<^verbatim>\<open>feedparser.parse(rss_url)\<close>, is not given it.
\<close>

theorem feed_fetch_without_user_agent:
  "sent (fst (snd (aggregate first_env world0 [] [the_club])))
     = [home_request, feed_request ''http://club.example/feed.xml''] \<and>
   req_agent home_request = Some USER_AGENT \<and>
   req_agent (feed_request ''http://club.example/feed.xml'') = None"
  using first_run_eval
  by (simp add: first_run_def first_world_def home_request_def feed_request_def)

end
